theory Spec2Isabelle
  imports Complex_Main "HOL-Library.Word"
begin

unbundle bit_operations_syntax

section \<open>Constants of node-announcer.cpp\<close>

definition NUM_NODES :: int where "NUM_NODES = 20"
definition MIN_EDGES :: int where "MIN_EDGES = 6"
definition MAX_EDGES :: int where "MAX_EDGES = 35"
definition SOCKET_ERROR :: int where "SOCKET_ERROR = - 1"
definition INVALID_SOCKET :: int where "INVALID_SOCKET = - 1"

section \<open>Objects as bytes\<close>

text \<open>
  The program sends the object representation of its structs: \<open>sendPacket\<close> takes a
  \<open>const void*\<close> and a size. A struct variable is therefore modelled as the bytes it
  occupies. A byte that was never written holds an indeterminate value: \<open>None\<close>.
  The host is little-endian (x86), \<open>uint16_t\<close> takes 2 bytes and \<open>float\<close> 4 bytes with
  alignment 4, as the comment in \<open>PositionPacket\<close> says.
\<close>

type_synonym byte = "8 word"
type_synonym cell = "byte option"
type_synonym mem = "cell list"

definition le16 :: "16 word \<Rightarrow> byte list" where
  "le16 w = [ucast w, ucast (drop_bit 8 w)]"

definition le32 :: "32 word \<Rightarrow> byte list" where
  "le32 w = [ucast w, ucast (drop_bit 8 w), ucast (drop_bit 16 w), ucast (drop_bit 24 w)]"

text \<open>Writing \<open>cs\<close> to the addresses \<open>a, a + 1, ...\<close> of an object.\<close>

fun poke :: "nat \<Rightarrow> cell list \<Rightarrow> mem \<Rightarrow> mem" where
  "poke a [] m = m"
| "poke a (c # cs) m = poke (Suc a) cs (m[a := c])"

text \<open>Assignment to a \<open>uint16_t\<close> or \<open>float\<close> member at byte offset \<open>a\<close>.\<close>

definition store16 :: "nat \<Rightarrow> 16 word \<Rightarrow> mem \<Rightarrow> mem" where
  "store16 a v m = poke a (map Some (le16 v)) m"

definition store32 :: "nat \<Rightarrow> 32 word \<Rightarrow> mem \<Rightarrow> mem" where
  "store32 a v m = poke a (map Some (le32 v)) m"

text \<open>The bytes \<open>[a, a + n)\<close> of an object: what a pointer to offset \<open>a\<close> and a size \<open>n\<close> denote.\<close>

definition bytes_at :: "mem \<Rightarrow> nat \<Rightarrow> nat \<Rightarrow> cell list" where
  "bytes_at m a n = take n (drop a m)"

text \<open>\<open>std::memcpy(obj + dst, obj + src, n)\<close> inside one object.\<close>

definition memcpy :: "nat \<Rightarrow> nat \<Rightarrow> nat \<Rightarrow> mem \<Rightarrow> mem" where
  "memcpy dst src n m = poke dst (bytes_at m src n) m"

text \<open>Reading a little-endian value back from bytes, as a receiver of the datagram does.\<close>

definition u16_of :: "byte list \<Rightarrow> 16 word" where
  "u16_of bs = ucast (bs ! 0) OR push_bit 8 (ucast (bs ! 1))"

definition u32_of :: "byte list \<Rightarrow> 32 word" where
  "u32_of bs = ucast (bs ! 0) OR push_bit 8 (ucast (bs ! 1))
     OR push_bit 16 (ucast (bs ! 2)) OR push_bit 24 (ucast (bs ! 3))"

text \<open>Reading a \<open>uint16_t\<close> member at byte offset \<open>a\<close>; indeterminate when a byte of it is.\<close>

definition load16 :: "nat \<Rightarrow> mem \<Rightarrow> 16 word option" where
  "load16 a m = (case bytes_at m a 2 of
      [Some b0, Some b1] \<Rightarrow> Some (u16_of [b0, b1])
    | _ \<Rightarrow> None)"

definition load32 :: "nat \<Rightarrow> mem \<Rightarrow> 32 word option" where
  "load32 a m = (case bytes_at m a 4 of
      [Some b0, Some b1, Some b2, Some b3] \<Rightarrow> Some (u32_of [b0, b1, b2, b3])
    | _ \<Rightarrow> None)"

section \<open>Struct layouts\<close>

text \<open>
  \<open>struct PositionPacket { uint16_t node_id; float x; float y; }\<close>:
  \<open>node_id\<close> at 0, a gap at 2 and 3, \<open>x\<close> at 4, \<open>y\<close> at 8.
\<close>

definition sizeof_uint16_t :: nat where "sizeof_uint16_t = 2"
definition sizeof_PositionPacket :: nat where "sizeof_PositionPacket = 12"
definition off_node_id :: nat where "off_node_id = 0"
definition off_x :: nat where "off_x = 4"
definition off_y :: nat where "off_y = 8"

text \<open>
  \<open>struct GraphEdge { uint16_t source_id, target_id, strength; }\<close> and
  \<open>struct GraphPacket { uint16_t sender_id, edge_count; GraphEdge edges[50]; }\<close>:
  no gaps, 6 and 304 bytes.
\<close>

definition sizeof_GraphEdge :: nat where "sizeof_GraphEdge = 6"
definition sizeof_GraphPacket :: nat where "sizeof_GraphPacket = 304"
definition off_sender_id :: nat where "off_sender_id = 0"
definition off_edge_count :: nat where "off_edge_count = 2"
definition off_edges :: nat where "off_edges = 4"
definition off_source_id :: nat where "off_source_id = 0"
definition off_target_id :: nat where "off_target_id = 2"
definition off_strength :: nat where "off_strength = 4"

text \<open>The address of \<open>packet.edges[i]\<close> inside the packet.\<close>

definition edge_at :: "nat \<Rightarrow> nat" where
  "edge_at i = off_edges + sizeof_GraphEdge * i"

section \<open>The position packet of \<open>positionServer\<close>\<close>

text \<open>
  Lines 204 to 232, for one node: the packet is declared (all bytes indeterminate), its
  three members are assigned, \<open>memcpy\<close> copies the two bytes of \<open>node_id\<close> to offset 2,
  and \<open>sendPacket\<close> is given the address 2 bytes into the packet and the size
  \<open>sizeof(packet) - sizeof(uint16_t)\<close>. A float is given by its 32 bits.
\<close>

definition position_record :: "16 word \<Rightarrow> 32 word \<Rightarrow> 32 word \<Rightarrow> mem" where
  "position_record node_id x y =
    (let packet = replicate sizeof_PositionPacket None;
         packet = store16 off_node_id node_id packet;
         packet = store32 off_x x packet;
         packet = store32 off_y y packet;
         packet = memcpy 2 0 sizeof_uint16_t packet
     in packet)"

definition position_datagram :: "16 word \<Rightarrow> 32 word \<Rightarrow> 32 word \<Rightarrow> cell list" where
  "position_datagram node_id x y =
     bytes_at (position_record node_id x y) 2 (sizeof_PositionPacket - sizeof_uint16_t)"

section \<open>Floating point\<close>

text \<open>
  A \<open>float\<close> is modelled by the real number it denotes. An arithmetic operation of the
  program is the exact operation followed by the rounding \<open>rnd\<close> to the nearest float,
  and \<open>bits\<close> gives the 32 bits that represent a float in memory; both are parameters.
  Infinities and NaN are not modelled: the program never divides, and its values stay
  far below the largest float.
\<close>

record float_model =
  rnd :: "real \<Rightarrow> real"
  bits :: "real \<Rightarrow> 32 word"

text \<open>\<open>std::max(a, b)\<close> is \<open>(a < b) ? b : a\<close> and \<open>std::min(a, b)\<close> is \<open>(b < a) ? b : a\<close>.\<close>

definition std_max :: "real \<Rightarrow> real \<Rightarrow> real" where
  "std_max a b = (if a < b then b else a)"

definition std_min :: "real \<Rightarrow> real \<Rightarrow> real" where
  "std_min a b = (if b < a then b else a)"

text \<open>The remainder \<open>a % b\<close> of C++ on \<open>int\<close>: the quotient is truncated towards zero.\<close>

definition cpp_rem :: "int \<Rightarrow> int \<Rightarrow> int" where
  "cpp_rem a b = sgn a * (\<bar>a\<bar> mod \<bar>b\<bar>)"

section \<open>The operating system and the clock\<close>

text \<open>
  What a producer thread does that another thread or the outside can tell apart: a load
  of the atomic flag \<open>running\<close> with the value it saw, a call of \<open>sendto\<close>, a call of
  \<open>sleep_for\<close>. The instant of an event is its place in the list of the events of the
  thread.
\<close>

datatype event = Load bool | Send "cell list" | Sleep nat

text \<open>
  The world of one producer thread: \<open>now\<close> is the time in milliseconds that the thread
  has spent in \<open>sleep_for\<close>, \<open>sent\<close> lists every call of \<open>sendto\<close> with the time of the
  call and the datagram, \<open>log\<close> holds the lines written to the console, and \<open>trace\<close>
  the events so far, in their order.
  The environment decides what the program cannot: whether the operating system accepts
  the n-th \<open>sendto\<close>, what \<open>socket\<close> and \<open>setsockopt\<close> return, and the flag. The main
  thread clears the flag between two events of the producer, of its choice: \<open>running E p\<close>
  is the value of the flag at the instant \<open>p\<close>, which a load that is the event number \<open>p\<close>
  sees. So the flag may be cleared after the load at the head of a loop and before the
  first \<open>sendto\<close> that follows it. A flag that is set at first and cleared once is
  \<open>\<lambda>p. p < S\<close>, where \<open>S\<close> is the number of the events that the thread had begun when the
  flag was cleared; a sleep that the clearing falls into counts as after it.
\<close>

record world =
  now :: nat
  sent :: "(nat \<times> cell list) list"
  log :: "string list"
  trace :: "event list"

record env =
  running :: "nat \<Rightarrow> bool"
  os_accepts :: "nat \<Rightarrow> bool"
  socket_result :: int
  setsockopt_result :: int

definition sleep_for :: "nat \<Rightarrow> world \<Rightarrow> world" where
  "sleep_for ms w = w\<lparr>now := now w + ms, trace := trace w @ [Sleep ms]\<rparr>"

definition print :: "string \<Rightarrow> world \<Rightarrow> world" where
  "print line w = w\<lparr>log := log w @ [line]\<rparr>"

text \<open>
  \<open>sendto\<close> returns the number of bytes sent, or \<open>SOCKET_ERROR\<close> when the operating
  system rejects the datagram.
\<close>

definition sendto :: "env \<Rightarrow> cell list \<Rightarrow> world \<Rightarrow> int \<times> world" where
  "sendto E d w =
     (if os_accepts E (length (sent w)) then int (length d) else SOCKET_ERROR,
      w\<lparr>sent := sent w @ [(now w, d)], trace := trace w @ [Send d]\<rparr>)"

text \<open>The load of \<open>running\<close> in the test of a \<open>while\<close> loop.\<close>

definition load_running :: "env \<Rightarrow> world \<Rightarrow> bool \<times> world" where
  "load_running E w =
     (let r = running E (length (trace w)) in (r, w\<lparr>trace := trace w @ [Load r]\<rparr>))"

section \<open>\<open>class UDPServer\<close>\<close>

datatype exn = runtime_error string

record UDPServer =
  sock :: int
  port :: nat

text \<open>
  The constructor throws when the socket cannot be made or configured. The lines under
  \<open>_WIN32\<close> are not part of the program on the host of the model.
\<close>

definition UDPServer_new :: "env \<Rightarrow> nat \<Rightarrow> exn + UDPServer" where
  "UDPServer_new E p =
     (let s = socket_result E in
      if s = INVALID_SOCKET then Inl (runtime_error ''Failed to create socket'')
      else if setsockopt_result E < 0 then Inl (runtime_error ''Failed to set broadcast option'')
      else Inr \<lparr>sock = s, port = p\<rparr>)"

text \<open>
  \<open>void sendPacket(const void* data, size_t size)\<close> calls \<open>sendto\<close> once and drops what it
  returns. The function has no result: the model returns the unit value and the world.
\<close>

definition sendPacket :: "env \<Rightarrow> UDPServer \<Rightarrow> cell list \<Rightarrow> world \<Rightarrow> unit \<times> world" where
  "sendPacket E server d w = (let (r, w') = sendto E d w in ((), w'))"

section \<open>\<open>class NodeManager\<close>\<close>

text \<open>
  The random engine has a state of type \<open>'g\<close>. A distribution of \<open><random>\<close> is a
  function that takes the engine, draws a value and returns the engine advanced; the
  three distributions are library code and are parameters of the model. The constructor
  gives them the ranges that \<open>NodeManager_dists_ok\<close> records.
\<close>

record 'g NodeManager_dists =
  pos_dist :: "'g \<Rightarrow> real \<times> 'g"
  move_dist :: "'g \<Rightarrow> real \<times> 'g"
  coin_toss :: "'g \<Rightarrow> int \<times> 'g"

definition NodeManager_dists_ok :: "'g NodeManager_dists \<Rightarrow> bool" where
  "NodeManager_dists_ok D \<longleftrightarrow>
     (\<forall>g. 0 \<le> fst (pos_dist D g) \<and> fst (pos_dist D g) \<le> 1000) \<and>
     (\<forall>g. - 5 \<le> fst (move_dist D g) \<and> fst (move_dist D g) \<le> 5) \<and>
     (\<forall>g. 0 \<le> fst (coin_toss D g) \<and> fst (coin_toss D g) \<le> 9)"

text \<open>
  \<open>std::map<uint16_t, std::pair<float, float>>\<close>: the entries in ascending key order,
  which is the order of iteration.
\<close>

type_synonym position = "real \<times> real"
type_synonym position_map = "(16 word \<times> position) list"

record 'g NodeManager =
  node_ids :: "16 word list"
  positions :: position_map
  distances :: "real list list"
  gen :: 'g

text \<open>\<open>positions[k]\<close>: \<open>operator[]\<close> inserts a value-initialised pair when the key is absent.\<close>

fun subscript :: "16 word \<Rightarrow> position_map \<Rightarrow> position_map" where
  "subscript k [] = [(k, (0, 0))]"
| "subscript k ((k', v) # m) =
     (if k = k' then (k', v) # m
      else if k < k' then (k, (0, 0)) # (k', v) # m
      else (k', v) # subscript k m)"

text \<open>\<open>positions[k] = v\<close>.\<close>

fun assign :: "16 word \<Rightarrow> position \<Rightarrow> position_map \<Rightarrow> position_map" where
  "assign k v [] = [(k, v)]"
| "assign k v ((k', v') # m) =
     (if k = k' then (k', v) # m
      else if k < k' then (k, v) # (k', v') # m
      else (k', v') # assign k v m)"

text \<open>\<open>positions.find(k)\<close>, which inserts nothing.\<close>

definition map_find :: "16 word \<Rightarrow> position_map \<Rightarrow> position option" where
  "map_find k m = map_of m k"

definition getNodeIds :: "'g NodeManager \<Rightarrow> 16 word list" where
  "getNodeIds nm = node_ids nm"

definition getPosition :: "'g NodeManager \<Rightarrow> 16 word \<Rightarrow> position" where
  "getPosition nm k = (case map_find k (positions nm) of Some p \<Rightarrow> p | None \<Rightarrow> (0, 0))"

text \<open>
  \<open>getDistance\<close> reads through \<open>operator[]\<close>, so both keys are in the map before the
  subtractions are made.
\<close>

definition getDistance ::
  "float_model \<Rightarrow> 16 word \<Rightarrow> 16 word \<Rightarrow> 'g NodeManager \<Rightarrow> real \<times> 'g NodeManager" where
  "getDistance F source_id target_id nm =
     (let ps = subscript target_id (subscript source_id (positions nm));
          s = the (map_find source_id ps);
          t = the (map_find target_id ps);
          dx = rnd F (fst s - fst t);
          dy = rnd F (snd s - snd t)
      in (rnd F (sqrt (rnd F (rnd F (dx * dx) + rnd F (dy * dy)))), nm\<lparr>positions := ps\<rparr>))"

text \<open>The clamping of lines 143 and 144, and the body of the loop of \<open>updatePositions\<close>.\<close>

definition clamp :: "real \<Rightarrow> real" where
  "clamp v = std_max 0 (std_min 1000 v)"

definition move :: "float_model \<Rightarrow> position \<Rightarrow> real \<Rightarrow> real \<Rightarrow> position" where
  "move F pos dx dy = (clamp (rnd F (fst pos + dx)), clamp (rnd F (snd pos + dy)))"

fun update_each ::
  "'g NodeManager_dists \<Rightarrow> float_model \<Rightarrow> position_map \<Rightarrow> 'g \<Rightarrow> position_map \<times> 'g" where
  "update_each D F [] g = ([], g)"
| "update_each D F ((k, pos) # ps) g =
     (let (c, g1) = coin_toss D g in
      if cpp_rem c 2 \<noteq> 0 then
        let (dx, g2) = move_dist D g1;
            (dy, g3) = move_dist D g2;
            (ps', g') = update_each D F ps g3
        in ((k, move F pos dx dy) # ps', g')
      else
        let (ps', g') = update_each D F ps g1
        in ((k, pos) # ps', g'))"

definition updatePositions ::
  "'g NodeManager_dists \<Rightarrow> float_model \<Rightarrow> 'g NodeManager \<Rightarrow> 'g NodeManager" where
  "updatePositions D F nm =
     (let (ps, g) = update_each D F (positions nm) (gen nm)
      in nm\<lparr>positions := ps, gen := g\<rparr>)"

text \<open>
  The constructor: the first loop makes the nodes, the second fills \<open>distances\<close>. Its
  indices stay below \<open>NUM_NODES\<close>, the length of \<open>node_ids\<close> and the size of the matrix.
\<close>

definition new_node :: "'g NodeManager_dists \<Rightarrow> int \<Rightarrow> 'g NodeManager \<Rightarrow> 'g NodeManager" where
  "new_node D i nm =
     (let (x, g1) = pos_dist D (gen nm);
          (y, g2) = pos_dist D g1
      in nm\<lparr>node_ids := node_ids nm @ [word_of_int i],
             positions := assign (word_of_int i) (x, y) (positions nm),
             distances := distances nm @ [replicate (nat NUM_NODES) 0],
             gen := g2\<rparr>)"

definition set_distance :: "float_model \<Rightarrow> nat \<Rightarrow> nat \<Rightarrow> 'g NodeManager \<Rightarrow> 'g NodeManager" where
  "set_distance F i j nm =
     (let source_node = node_ids nm ! i;
          target_node = node_ids nm ! j;
          (dist, nm1) = getDistance F source_node target_node nm;
          ds = distances nm1;
          ds = ds[i := (ds ! i)[j := dist]];
          ds = ds[j := (ds ! j)[i := dist]]
      in nm1\<lparr>distances := ds\<rparr>)"

definition NodeManager_new ::
  "'g NodeManager_dists \<Rightarrow> float_model \<Rightarrow> 'g \<Rightarrow> 'g NodeManager" where
  "NodeManager_new D F seed =
     (let nm = \<lparr>node_ids = [], positions = [], distances = [], gen = seed\<rparr>;
          nm = fold (new_node D) [1..NUM_NODES] nm
      in fold (\<lambda>i. fold (set_distance F i) [i + 1..<nat NUM_NODES]) [0..<nat NUM_NODES] nm)"

section \<open>\<open>class GraphGenerator\<close>\<close>

record 'g GraphGenerator_dists =
  node_dist :: "'g \<Rightarrow> int \<times> 'g"
  strength_dist :: "'g \<Rightarrow> 16 word \<times> 'g"
  edge_count_dist :: "'g \<Rightarrow> int \<times> 'g"

text \<open>The ranges that the constructor gives to the three distributions.\<close>

definition GraphGenerator_dists_ok :: "'g GraphGenerator_dists \<Rightarrow> bool" where
  "GraphGenerator_dists_ok D \<longleftrightarrow>
     (\<forall>g. 1 \<le> fst (node_dist D g) \<and> fst (node_dist D g) \<le> NUM_NODES) \<and>
     (\<forall>g. 1 \<le> fst (strength_dist D g) \<and> fst (strength_dist D g) \<le> 1000) \<and>
     (\<forall>g. MIN_EDGES \<le> fst (edge_count_dist D g) \<and> fst (edge_count_dist D g) \<le> MAX_EDGES)"

text \<open>
  What C++ leaves undefined is a fault of the model, so that no theorem rests on it:
  an index outside \<open>edges[50]\<close>, a read past the end of the packet, the use of an
  indeterminate value.
\<close>

datatype fault = OutOfBounds | IndeterminateRead

text \<open>
  The \<open>do ... while\<close> of lines 182 to 184 draws \<open>target_id\<close> until it differs from
  \<open>source_id\<close>. Nothing bounds the number of draws: when the loop never ends there is no
  result, \<open>None\<close>.
\<close>

partial_function (option) draw_target ::
  "'g GraphGenerator_dists \<Rightarrow> nat \<Rightarrow> mem \<Rightarrow> 'g \<Rightarrow> (mem \<times> 'g) option" where
  "draw_target D i packet g =
     (let (t, g') = node_dist D g;
          packet' = store16 (edge_at i + off_target_id) (word_of_int t) packet
      in if load16 (edge_at i + off_target_id) packet' = load16 (edge_at i + off_source_id) packet'
         then draw_target D i packet' g'
         else Some (packet', g'))"

declare draw_target.simps [code]

text \<open>The \<open>for\<close> loop of lines 180 to 187, from \<open>i\<close> on.\<close>

function for_edges ::
  "'g GraphGenerator_dists \<Rightarrow> int \<Rightarrow> int \<Rightarrow> mem \<Rightarrow> 'g \<Rightarrow> (fault + mem \<times> 'g) option" where
  "for_edges D num_edges i packet g =
     (if i < num_edges then
        if i < 0 \<or> 50 \<le> i then Some (Inl OutOfBounds)
        else
          let (s, g1) = node_dist D g;
              packet1 = store16 (edge_at (nat i) + off_source_id) (word_of_int s) packet
          in case draw_target D (nat i) packet1 g1 of
               None \<Rightarrow> None
             | Some (packet2, g2) \<Rightarrow>
                 let (w, g3) = strength_dist D g2;
                     packet3 = store16 (edge_at (nat i) + off_strength) w packet2
                 in for_edges D num_edges (i + 1) packet3 g3
      else Some (Inr (packet, g)))"
  by pat_completeness auto
termination
  by (relation "measure (\<lambda>(D, num_edges, i, packet, g). nat (num_edges - i))") auto

declare for_edges.simps [simp del]

definition generateGraph ::
  "'g GraphGenerator_dists \<Rightarrow> 16 word \<Rightarrow> 'g \<Rightarrow> (fault + mem \<times> 'g) option" where
  "generateGraph D sender_id g =
     (let packet = replicate sizeof_GraphPacket None;
          packet = store16 off_sender_id sender_id packet;
          (num_edges, g1) = edge_count_dist D g;
          packet = store16 off_edge_count (word_of_int num_edges) packet
      in for_edges D num_edges 0 packet g1)"

section \<open>The graph packet of \<open>graphServer\<close>\<close>

text \<open>
  Line 255: \<open>sizeof(GraphPacket) - sizeof(GraphEdge) * (50 - packet.edge_count)\<close>.
  The difference \<open>50 - packet.edge_count\<close> is an \<open>int\<close>; the product and the outer
  difference are made in \<open>size_t\<close>, 64 bits that wrap around.
\<close>

definition graph_send_size :: "16 word \<Rightarrow> 64 word" where
  "graph_send_size edge_count =
     word_of_nat sizeof_GraphPacket - word_of_nat sizeof_GraphEdge * word_of_int (50 - uint edge_count)"

definition graph_datagram :: "mem \<Rightarrow> fault + cell list" where
  "graph_datagram packet =
     (case load16 off_edge_count packet of
        None \<Rightarrow> Inl IndeterminateRead
      | Some edge_count \<Rightarrow>
          let size = unat (graph_send_size edge_count)
          in if size \<le> length packet then Inr (bytes_at packet 0 size) else Inl OutOfBounds)"

section \<open>The producers\<close>

text \<open>
  \<open>positionServer\<close>, lines 203 to 234 for one node. The copies of lines 222 to 228 into
  \<open>temp\<close>, \<open>tx\<close> and \<open>ty\<close> are read by nothing and are left out.
\<close>

definition send_position ::
  "env \<Rightarrow> float_model \<Rightarrow> UDPServer \<Rightarrow> 'g NodeManager \<Rightarrow> 16 word \<Rightarrow> world \<Rightarrow> world" where
  "send_position E F server nm node_id w =
     (let pos = getPosition nm node_id;
          d = position_datagram node_id (bits F (fst pos)) (bits F (snd pos));
          (u, w) = sendPacket E server d w
      in sleep_for 10 w)"

text \<open>One turn of the \<open>while\<close> loop of \<open>positionServer\<close>, lines 201 to 236.\<close>

definition position_sweep ::
  "env \<Rightarrow> 'g NodeManager_dists \<Rightarrow> float_model \<Rightarrow> UDPServer \<Rightarrow>
   'g NodeManager \<times> world \<Rightarrow> 'g NodeManager \<times> world" where
  "position_sweep E D F server st =
     (let nm = updatePositions D F (fst st);
          w = fold (send_position E F server nm) (getNodeIds nm) (snd st)
      in (nm, sleep_for 100 w))"

text \<open>
  \<open>while (running)\<close>: the flag is loaded at the head of the loop and nowhere else. The
  loop does not end while the loads see the flag set: \<open>None\<close>.
\<close>

partial_function (option) position_loop ::
  "env \<Rightarrow> 'g NodeManager_dists \<Rightarrow> float_model \<Rightarrow> UDPServer \<Rightarrow>
   'g NodeManager \<times> world \<Rightarrow> ('g NodeManager \<times> world) option" where
  "position_loop E D F server st =
     (let (r, w) = load_running E (snd st)
      in if r then position_loop E D F server (position_sweep E D F server (fst st, w))
         else Some (fst st, w))"

text \<open>
  \<open>positionServer\<close> as a whole: an exception of the constructor of \<open>UDPServer\<close> is caught
  and written to \<open>std::cerr\<close>, and the producer ends without a datagram.
\<close>

definition positionServer ::
  "env \<Rightarrow> 'g NodeManager_dists \<Rightarrow> float_model \<Rightarrow> 'g \<Rightarrow> world \<Rightarrow> world option" where
  "positionServer E D F seed w =
     (case UDPServer_new E 12345 of
        Inl (runtime_error what) \<Rightarrow> Some (print (''Position server error: '' @ what) w)
      | Inr server \<Rightarrow>
          let nodeManager = NodeManager_new D F seed;
              w = print ''Position server started on port 12345'' w
          in case position_loop E D F server (nodeManager, w) of
               None \<Rightarrow> None
             | Some (nm, w) \<Rightarrow> Some (print ''Position server stopped.'' w))"

text \<open>\<open>graphServer\<close>, lines 254 to 256 for one node.\<close>

definition send_graph ::
  "env \<Rightarrow> 'g GraphGenerator_dists \<Rightarrow> UDPServer \<Rightarrow> 16 word \<Rightarrow> 'g \<times> world \<Rightarrow>
   (fault + 'g \<times> world) option" where
  "send_graph E D server node_id st =
     (case generateGraph D node_id (fst st) of
        None \<Rightarrow> None
      | Some (Inl f) \<Rightarrow> Some (Inl f)
      | Some (Inr (packet, g)) \<Rightarrow>
          (case graph_datagram packet of
             Inl f \<Rightarrow> Some (Inl f)
           | Inr d \<Rightarrow>
               let (u, w) = sendPacket E server d (snd st)
               in Some (Inr (g, sleep_for 200 w))))"

text \<open>The \<open>for\<close> loop of line 253 over the node ids that are left.\<close>

fun graph_for ::
  "env \<Rightarrow> 'g GraphGenerator_dists \<Rightarrow> UDPServer \<Rightarrow> 16 word list \<Rightarrow> 'g \<times> world \<Rightarrow>
   (fault + 'g \<times> world) option" where
  "graph_for E D server [] st = Some (Inr st)"
| "graph_for E D server (node_id # ids) st =
     (case send_graph E D server node_id st of
        None \<Rightarrow> None
      | Some (Inl f) \<Rightarrow> Some (Inl f)
      | Some (Inr st') \<Rightarrow> graph_for E D server ids st')"

text \<open>One turn of the \<open>while\<close> loop of \<open>graphServer\<close>, lines 253 to 259.\<close>

definition graph_sweep ::
  "env \<Rightarrow> 'g GraphGenerator_dists \<Rightarrow> UDPServer \<Rightarrow> 'g \<times> world \<Rightarrow> (fault + 'g \<times> world) option" where
  "graph_sweep E D server st =
     (case graph_for E D server (map word_of_int [1..NUM_NODES]) st of
        None \<Rightarrow> None
      | Some (Inl f) \<Rightarrow> Some (Inl f)
      | Some (Inr (g, w)) \<Rightarrow> Some (Inr (g, sleep_for 2000 w)))"

text \<open>\<open>while (running)\<close> of \<open>graphServer\<close>, and the function as a whole.\<close>

partial_function (option) graph_loop ::
  "env \<Rightarrow> 'g GraphGenerator_dists \<Rightarrow> UDPServer \<Rightarrow> 'g \<times> world \<Rightarrow> (fault + 'g \<times> world) option" where
  "graph_loop E D server st =
     (let (r, w) = load_running E (snd st)
      in if r then case graph_sweep E D server (fst st, w) of
                     None \<Rightarrow> None
                   | Some (Inl f) \<Rightarrow> Some (Inl f)
                   | Some (Inr st') \<Rightarrow> graph_loop E D server st'
         else Some (Inr (fst st, w)))"

definition graphServer ::
  "env \<Rightarrow> 'g GraphGenerator_dists \<Rightarrow> 'g \<Rightarrow> world \<Rightarrow> (fault + world) option" where
  "graphServer E D seed w =
     (case UDPServer_new E 12346 of
        Inl (runtime_error what) \<Rightarrow> Some (Inr (print (''Graph server error: '' @ what) w))
      | Inr server \<Rightarrow>
          let w = print ''Graph server started on port 12346'' w
          in case graph_loop E D server (seed, w) of
               None \<Rightarrow> None
             | Some (Inl f) \<Rightarrow> Some (Inl f)
             | Some (Inr (g, w)) \<Rightarrow> Some (Inr (print ''Graph server stopped.'' w)))"

section \<open>What the properties are about\<close>

text \<open>
  The edge record \<open>i\<close> of a packet or of a datagram, read the way a receiver does, and
  what the data model asks of it: distinct end points, both from 1 to \<open>NUM_NODES\<close>, and
  a strength from 1 to 1000.
\<close>

definition edge_ok :: "cell list \<Rightarrow> nat \<Rightarrow> bool" where
  "edge_ok d i =
     (case (load16 (edge_at i + off_source_id) d, load16 (edge_at i + off_target_id) d,
            load16 (edge_at i + off_strength) d) of
        (Some source_id, Some target_id, Some strength) \<Rightarrow>
          source_id \<noteq> target_id \<and> 1 \<le> source_id \<and> source_id \<le> 20 \<and>
          1 \<le> target_id \<and> target_id \<le> 20 \<and> 1 \<le> strength \<and> strength \<le> 1000
      | _ \<Rightarrow> False)"

text \<open>
  The rejection loop of \<open>generateGraph\<close> ends for every edge of the packet. The C++
  library does not promise it; an engine that keeps drawing the source id never leaves
  the loop.
\<close>

definition sampling_ends :: "'g GraphGenerator_dists \<Rightarrow> bool" where
  "sampling_ends D \<longleftrightarrow>
     (\<forall>i p g. i < 50 \<longrightarrow> length p = sizeof_GraphPacket \<longrightarrow> draw_target D i p g \<noteq> None)"

text \<open>A position inside the square, and the key order that \<open>std::map\<close> keeps.\<close>

definition in_bounds :: "position \<Rightarrow> bool" where
  "in_bounds p \<longleftrightarrow> 0 \<le> fst p \<and> fst p \<le> 1000 \<and> 0 \<le> snd p \<and> snd p \<le> 1000"

definition ascending :: "position_map \<Rightarrow> bool" where
  "ascending m \<longleftrightarrow> sorted_wrt (<) (map fst m)"

definition nm_inv :: "'g NodeManager \<Rightarrow> bool" where
  "nm_inv nm \<longleftrightarrow> list_all (in_bounds \<circ> snd) (positions nm) \<and> ascending (positions nm)"

text \<open>
  The states of a node manager: the one the constructor makes, and those that calls of
  its two methods that change it lead to.
\<close>

inductive reachable :: "'g NodeManager_dists \<Rightarrow> float_model \<Rightarrow> 'g NodeManager \<Rightarrow> bool"
  for D :: "'g NodeManager_dists" and F :: float_model where
  new: "reachable D F (NodeManager_new D F seed)"
| tick: "reachable D F nm \<Longrightarrow> reachable D F (updatePositions D F nm)"
| distance: "reachable D F nm \<Longrightarrow> reachable D F (snd (getDistance F s t nm))"

text \<open>
  What one tick does to one entry \<open>a\<close> of \<open>positions\<close>, giving \<open>b\<close>, when the engine is
  in the state \<open>g\<close> before and \<open>g'\<close> after: the key stays; the coin is drawn at \<open>g\<close>; when it
  is odd, the two deltas are drawn next, one after the other, and the engine is left as
  the second draw leaves it; when it is even, the engine is left as the coin leaves it.
\<close>

definition node_step ::
  "'g NodeManager_dists \<Rightarrow> float_model \<Rightarrow> 'g \<Rightarrow> 16 word \<times> position \<Rightarrow>
   16 word \<times> position \<Rightarrow> 'g \<Rightarrow> bool" where
  "node_step D F g a b g' \<longleftrightarrow>
     fst b = fst a \<and>
     (\<exists>c g1 dx g2 dy g3.
        coin_toss D g = (c, g1) \<and> move_dist D g1 = (dx, g2) \<and> move_dist D g2 = (dy, g3) \<and>
        0 \<le> c \<and> c \<le> 9 \<and> - 5 \<le> dx \<and> dx \<le> 5 \<and> - 5 \<le> dy \<and> dy \<le> 5 \<and>
        (if cpp_rem c 2 \<noteq> 0
         then snd b = (clamp (rnd F (fst (snd a) + dx)), clamp (rnd F (snd (snd a) + dy))) \<and> g' = g3
         else snd b = snd a \<and> g' = g1))"

text \<open>
  In a list of events: the number of loads of the flag, the number of calls of \<open>sendto\<close>,
  and the milliseconds slept.
\<close>

definition loads_in :: "event list \<Rightarrow> nat" where
  "loads_in tr = sum_list (map (\<lambda>e. case e of Load r \<Rightarrow> 1 | _ \<Rightarrow> 0) tr)"

definition sends_in :: "event list \<Rightarrow> nat" where
  "sends_in tr = sum_list (map (\<lambda>e. case e of Send d \<Rightarrow> 1 | _ \<Rightarrow> 0) tr)"

definition slept_in :: "event list \<Rightarrow> nat" where
  "slept_in tr = sum_list (map (\<lambda>e. case e of Sleep ms \<Rightarrow> ms | _ \<Rightarrow> 0) tr)"

section \<open>Inputs for the examples\<close>

text \<open>
  A random engine whose state is a counter, with distributions that stay in the ranges
  of the constructor. Every other draw of \<open>node_dist\<close> repeats the one before, so the
  rejection loop of \<open>generateGraph\<close> runs more than once.
\<close>

definition D0 :: "nat GraphGenerator_dists" where
  "D0 = \<lparr>node_dist = (\<lambda>g. (1 + int ((g div 2) mod 20), Suc g)),
         strength_dist = (\<lambda>g. (word_of_nat (1 + g mod 1000), Suc g)),
         edge_count_dist = (\<lambda>g. (6 + int (g mod 30), Suc g))\<rparr>"

text \<open>
  An operating system that rejects every datagram, and a flag that is cleared at the
  instant 1: after the first event of the thread, which is the first load of the flag.
\<close>

definition E0 :: env where
  "E0 = \<lparr>running = (\<lambda>p. p < 1), os_accepts = (\<lambda>n. False),
         socket_result = 3, setsockopt_result = 0\<rparr>"

definition w0 :: world where
  "w0 = \<lparr>now = 0, sent = [], log = [], trace = []\<rparr>"

definition position_server0 :: UDPServer where
  "position_server0 = \<lparr>sock = 3, port = 12345\<rparr>"

definition graph_server0 :: UDPServer where
  "graph_server0 = \<lparr>sock = 3, port = 12346\<rparr>"

text \<open>The first graph datagram of that engine, for node 1, and the world after it.\<close>

definition d1 :: "cell list" where
  "d1 = map Some [1, 0, 6, 0, 1, 0, 2, 0, 4, 0, 3, 0, 4, 0, 8, 0, 5, 0, 6, 0, 12, 0,
                  7, 0, 8, 0, 16, 0, 9, 0, 10, 0, 20, 0, 11, 0, 12, 0, 24, 0]"

definition w1 :: world where
  "w1 = \<lparr>now = 200, sent = [(0, d1)], log = [], trace = [Send d1, Sleep 200]\<rparr>"

text \<open>
  A random engine whose state is the list of the numbers still to be drawn (0 when the
  list is used up), with the distributions of the node manager cut to their ranges; and
  floats without rounding, whose bits the examples do not look at.
\<close>

definition draw :: "int list \<Rightarrow> int \<times> int list" where
  "draw g = (case g of [] \<Rightarrow> (0, []) | x # xs \<Rightarrow> (x, xs))"

definition Dt :: "int list NodeManager_dists" where
  "Dt = \<lparr>pos_dist = (\<lambda>g. (of_int (fst (draw g) mod 1001), snd (draw g))),
         move_dist = (\<lambda>g. (of_int (fst (draw g) mod 11) - 5, snd (draw g))),
         coin_toss = (\<lambda>g. (fst (draw g) mod 10, snd (draw g)))\<rparr>"

definition F0 :: float_model where
  "F0 = \<lparr>rnd = (\<lambda>x. x), bits = (\<lambda>x. 0)\<rparr>"

text \<open>A node manager with the one node 1 at (3, 4), and the same after \<open>getDistance(1, 7)\<close>.\<close>

definition nm_a :: "int list NodeManager" where
  "nm_a = \<lparr>node_ids = [1], positions = [(1, (3, 4))], distances = [[0]], gen = []\<rparr>"

definition nm_b :: "int list NodeManager" where
  "nm_b = nm_a\<lparr>positions := [(1, (3, 4)), (7, (0, 0))]\<rparr>"

text \<open>
  A node manager with three nodes and an engine that has seven numbers left: node 1
  moves by (1, 2), node 2 stays, node 3 moves by (5, -5) and is clamped. The same after
  the tick.
\<close>

definition nm_c :: "int list NodeManager" where
  "nm_c = \<lparr>node_ids = [1, 2, 3],
           positions = [(1, (3, 4)), (2, (10, 20)), (3, (999, 0))],
           distances = [],
           gen = [1, 6, 7, 0, 3, 10, 0]\<rparr>"

definition nm_d :: "int list NodeManager" where
  "nm_d = nm_c\<lparr>positions := [(1, (4, 6)), (2, (10, 20)), (3, (1000, 0))], gen := []\<rparr>"

text \<open>
  One tick of a manager with the one node 7 at (500, 500), when the coin shows \<open>c\<close> and
  both deltas are 1; and whether the tick changed \<open>x\<close>, \<open>y\<close>, both.
\<close>

definition tick_with_coin :: "int \<Rightarrow> position" where
  "tick_with_coin c =
     snd (hd (positions (updatePositions Dt F0
       \<lparr>node_ids = [7], positions = [(7, (500, 500))], distances = [[0]], gen = [c, 6, 6]\<rparr>)))"

definition x_moved :: "int \<Rightarrow> bool" where
  "x_moved c \<longleftrightarrow> fst (tick_with_coin c) \<noteq> 500"

definition y_moved :: "int \<Rightarrow> bool" where
  "y_moved c \<longleftrightarrow> snd (tick_with_coin c) \<noteq> 500"

definition both_moved :: "int \<Rightarrow> bool" where
  "both_moved c \<longleftrightarrow> x_moved c \<and> y_moved c"

section \<open>Bytes and words\<close>

lemma u16_of_le16: "u16_of (le16 w) = w"
  unfolding u16_of_def le16_def
  apply simp
  apply (rule bit_word_eqI)
  apply (auto simp: bit_simps)
  done

lemma u32_of_le32: "u32_of (le32 w) = w"
  unfolding u32_of_def le32_def
  apply simp
  apply (rule bit_word_eqI)
  subgoal for n
  proof -
    consider "n < 8" | "8 \<le> n" "n < 16" | "16 \<le> n" "n < 24" | "24 \<le> n" by linarith
    then show "n < LENGTH(32) \<Longrightarrow> ?thesis"
      by cases (auto simp: bit_simps)
  qed
  done

lemma length_poke [simp]: "length (poke a cs m) = length m"
  by (induction cs arbitrary: a m) auto

lemma nth_poke:
  "j < length m \<Longrightarrow> poke a cs m ! j = (if a \<le> j \<and> j < a + length cs then cs ! (j - a) else m ! j)"
proof (induction cs arbitrary: a m)
  case Nil
  then show ?case by auto
next
  case (Cons c cs)
  then show ?case
    by (auto simp: nth_list_update Suc_diff_le less_Suc_eq_le nth_Cons')
qed

lemma length_store16 [simp]: "length (store16 a v m) = length m"
  by (simp add: store16_def)

lemma nth_store16:
  "j < length m \<Longrightarrow> store16 a v m ! j =
     (if j = a then Some (ucast v) else if j = Suc a then Some (ucast (drop_bit 8 v)) else m ! j)"
  by (auto simp: store16_def nth_poke le16_def nth_Cons')

lemma bytes_at_2: "a + 2 \<le> length m \<Longrightarrow> bytes_at m a 2 = [m ! a, m ! Suc a]"
  by (simp add: bytes_at_def numeral_2_eq_2 Cons_nth_drop_Suc [symmetric])

lemma load16_nth:
  "a + 2 \<le> length m \<Longrightarrow> load16 a m =
     (case (m ! a, m ! Suc a) of (Some b0, Some b1) \<Rightarrow> Some (u16_of [b0, b1]) | _ \<Rightarrow> None)"
  by (simp add: load16_def bytes_at_2 split: option.splits)

lemma load16_store16_same:
  "a + 2 \<le> length m \<Longrightarrow> load16 a (store16 a v m) = Some v"
  using u16_of_le16 [of v] by (simp add: load16_nth nth_store16 le16_def)

lemma load16_store16_other:
  "a + 2 \<le> length m \<Longrightarrow> b + 2 \<le> length m \<Longrightarrow> b + 2 \<le> a \<or> a + 2 \<le> b \<Longrightarrow>
   load16 b (store16 a v m) = load16 b m"
  by (auto simp: load16_nth nth_store16)

lemma store16_twice: "store16 a v (store16 a v' m) = store16 a v m"
  by (rule nth_equalityI) (auto simp: nth_store16)

section \<open>The position packet\<close>

lemma position_record_bytes:
  "position_record node_id x y = map Some (le16 node_id @ le16 node_id @ le32 x @ le32 y)"
  by (simp add: position_record_def sizeof_PositionPacket_def sizeof_uint16_t_def
      off_node_id_def off_x_def off_y_def store16_def store32_def memcpy_def bytes_at_def
      le16_def le32_def eval_nat_numeral)

lemma position_datagram_bytes:
  "position_datagram node_id x y = map Some (le16 node_id @ le32 x @ le32 y)"
  by (simp add: position_datagram_def position_record_bytes bytes_at_def
      sizeof_PositionPacket_def sizeof_uint16_t_def le16_def le32_def)

section \<open>Graph datagrams\<close>

lemma graph_send_size_unat: "unat (graph_send_size k) = 4 + 6 * unat k"
proof -
  have "graph_send_size k = word_of_int (304 - 6 * (50 - uint k))"
    by (simp add: graph_send_size_def sizeof_GraphPacket_def sizeof_GraphEdge_def)
  also have "304 - 6 * (50 - uint k) = int (4 + 6 * unat k)" by simp
  finally have eq: "graph_send_size k = of_nat (4 + 6 * unat k)" by simp
  have "unat k < 2 ^ 16"
    using unsigned_less [of k, where ?'a = nat] by simp
  then have "(4 + 6 * unat k) mod 2 ^ LENGTH(64) = 4 + 6 * unat k" by simp
  then show ?thesis unfolding eq
    by (simp only: unat_of_nat)
qed

text \<open>
  When the rejection loop returns, the packet differs from the one it was given by one
  assignment to \<open>target_id\<close>, of a value drawn from \<open>node_dist\<close>, and the two end points
  differ.
\<close>

lemma draw_target_result:
  assumes "draw_target D i p g = Some y"
  shows "\<exists>g0. fst y = store16 (edge_at i + off_target_id) (word_of_int (fst (node_dist D g0))) p \<and>
        load16 (edge_at i + off_target_id) (fst y) \<noteq> load16 (edge_at i + off_source_id) (fst y)"
proof (rule draw_target.raw_induct [where P = "\<lambda>D i p g y.
    \<exists>g0. fst y = store16 (edge_at i + off_target_id) (word_of_int (fst (node_dist D g0))) p \<and>
        load16 (edge_at i + off_target_id) (fst y) \<noteq> load16 (edge_at i + off_source_id) (fst y)",
    OF _ assms])
  fix dt and D :: "'a GraphGenerator_dists" and i p g y
  assume IH: "\<And>D i p g y. dt D i p g = Some y \<Longrightarrow>
    \<exists>g0. fst y = store16 (edge_at i + off_target_id) (word_of_int (fst (node_dist D g0))) p \<and>
        load16 (edge_at i + off_target_id) (fst y) \<noteq> load16 (edge_at i + off_source_id) (fst y)"
    and body: "(let (t, g') = node_dist D g;
          packet' = store16 (edge_at i + off_target_id) (word_of_int t) p
      in if load16 (edge_at i + off_target_id) packet' = load16 (edge_at i + off_source_id) packet'
         then dt D i packet' g' else Some (packet', g')) = Some y"
  obtain t g' where draw: "node_dist D g = (t, g')" by (cases "node_dist D g")
  let ?p = "store16 (edge_at i + off_target_id) (word_of_int t) p"
  show "\<exists>g0. fst y = store16 (edge_at i + off_target_id) (word_of_int (fst (node_dist D g0))) p \<and>
        load16 (edge_at i + off_target_id) (fst y) \<noteq> load16 (edge_at i + off_source_id) (fst y)"
  proof (cases "load16 (edge_at i + off_target_id) ?p = load16 (edge_at i + off_source_id) ?p")
    case True
    with body draw have "dt D i ?p g' = Some y" by simp
    from IH [OF this] show ?thesis by (simp add: store16_twice)
  next
    case False
    with body draw have "y = (?p, g')" by simp
    with False draw show ?thesis by (metis fst_conv)
  qed
qed

lemmas offs = edge_at_def off_edges_def sizeof_GraphEdge_def off_source_id_def
  off_target_id_def off_strength_def

lemma node_word_range:
  "1 \<le> t \<Longrightarrow> t \<le> 20 \<Longrightarrow> 1 \<le> (word_of_int t :: 16 word) \<and> (word_of_int t :: 16 word) \<le> 20"
  by (simp add: word_le_def uint_word_of_int)

text \<open>One turn of the \<open>for\<close> loop of \<open>generateGraph\<close> writes the edge record \<open>k\<close> and nothing else.\<close>

lemma write_edge:
  fixes p :: mem and k :: nat
  defines "e \<equiv> edge_at k"
  assumes k: "k < 50" and len: "length p = 304"
    and p2: "p2 = store16 (e + off_target_id) t (store16 (e + off_source_id) s p)"
    and ne: "load16 (e + off_target_id) p2 \<noteq> load16 (e + off_source_id) p2"
    and p3: "p3 = store16 (e + off_strength) w p2"
    and s: "1 \<le> s" "s \<le> 20" and t: "1 \<le> t" "t \<le> 20" and w: "1 \<le> w" "w \<le> 1000"
    and old: "\<forall>i<k. edge_ok p i"
    and none: "\<forall>j. edge_at k \<le> j \<and> j < 304 \<longrightarrow> p ! j = None"
  shows "length p3 = 304"
    and "\<forall>i<Suc k. edge_ok p3 i"
    and "\<forall>j. edge_at (Suc k) \<le> j \<and> j < 304 \<longrightarrow> p3 ! j = None"
    and "\<forall>j<4. p3 ! j = p ! j"
proof -
  show "length p3 = 304" by (simp add: p3 p2 len)
  have e: "e + 6 \<le> 304" using k by (simp add: e_def offs)
  have ls: "load16 (e + off_source_id) p3 = Some s"
    using e by (simp add: p3 p2 len offs load16_store16_same load16_store16_other)
  have lt: "load16 (e + off_target_id) p3 = Some t"
    using e by (simp add: p3 p2 len offs load16_store16_same load16_store16_other)
  have lw: "load16 (e + off_strength) p3 = Some w"
    using e by (simp add: p3 p2 len offs load16_store16_same load16_store16_other)
  have "s \<noteq> t"
    using ne e by (simp add: p2 len offs load16_store16_same load16_store16_other)
  then have new: "edge_ok p3 k"
    using ls lt lw s t w by (simp add: edge_ok_def e_def)
  have keep: "edge_ok p3 i" if "i < k" for i
  proof -
    have "edge_at i + 6 \<le> e" using that by (simp add: e_def offs)
    then have "load16 (edge_at i + off_source_id) p3 = load16 (edge_at i + off_source_id) p"
      "load16 (edge_at i + off_target_id) p3 = load16 (edge_at i + off_target_id) p"
      "load16 (edge_at i + off_strength) p3 = load16 (edge_at i + off_strength) p"
      using e by (simp_all add: p3 p2 len offs load16_store16_other)
    then show ?thesis using old that by (simp add: edge_ok_def)
  qed
  show "\<forall>i<Suc k. edge_ok p3 i"
    using new keep by (auto simp: less_Suc_eq)
  show "\<forall>j. edge_at (Suc k) \<le> j \<and> j < 304 \<longrightarrow> p3 ! j = None"
    using none by (auto simp: p3 p2 len nth_store16 e_def offs)
  show "\<forall>j<4. p3 ! j = p ! j"
    by (auto simp: p3 p2 len nth_store16 e_def offs)
qed

lemma node_dist_word:
  "GraphGenerator_dists_ok D \<Longrightarrow>
   1 \<le> (word_of_int (fst (node_dist D g)) :: 16 word) \<and>
   (word_of_int (fst (node_dist D g)) :: 16 word) \<le> 20"
  by (rule node_word_range) (simp_all add: GraphGenerator_dists_ok_def NUM_NODES_def)

lemma strength_dist_range:
  "GraphGenerator_dists_ok D \<Longrightarrow>
   1 \<le> fst (strength_dist D g) \<and> fst (strength_dist D g) \<le> 1000"
  by (simp add: GraphGenerator_dists_ok_def)

lemma for_edges_inv:
  "for_edges D n i p g = Some (Inr (p', g')) \<Longrightarrow> GraphGenerator_dists_ok D \<Longrightarrow> 0 \<le> i \<Longrightarrow> i \<le> n \<Longrightarrow>
    length p = 304 \<Longrightarrow> \<forall>e<nat i. edge_ok p e \<Longrightarrow>
    \<forall>j. edge_at (nat i) \<le> j \<and> j < 304 \<longrightarrow> p ! j = None \<Longrightarrow>
    length p' = 304 \<and> (\<forall>e<nat n. edge_ok p' e) \<and>
    (\<forall>j. edge_at (nat n) \<le> j \<and> j < 304 \<longrightarrow> p' ! j = None) \<and> (\<forall>j<4. p' ! j = p ! j)"
proof (induction D n i p g rule: for_edges.induct)
  case (1 D num_edges i packet g)
  note ok = "1.prems"(2)
  show ?case
  proof (cases "i < num_edges")
    case False
    with "1.prems" have "i = num_edges" "p' = packet"
      by (simp_all add: for_edges.simps [of D num_edges i packet g])
    with "1.prems" show ?thesis by simp
  next
    case True
    note unfold = "1.prems"(1) [unfolded for_edges.simps [of D num_edges i packet g]]
    with True have i50: "i < 50"
      by (auto split: if_splits)
    obtain s g1 where s: "node_dist D g = (s, g1)" by (cases "node_dist D g")
    let ?e = "edge_at (nat i)"
    let ?p1 = "store16 (?e + off_source_id) (word_of_int s) packet"
    from unfold True i50 "1.prems"(3) s
    obtain p2 g2 where dt: "draw_target D (nat i) ?p1 g1 = Some (p2, g2)"
      by (auto split: option.splits)
    obtain w g3 where w: "strength_dist D g2 = (w, g3)" by (cases "strength_dist D g2")
    let ?p3 = "store16 (?e + off_strength) w p2"
    from unfold True i50 "1.prems"(3) s dt w
    have rec: "for_edges D num_edges (i + 1) ?p3 g3 = Some (Inr (p', g'))"
      by simp
    from draw_target_result [OF dt] obtain g0 where
      p2: "p2 = store16 (?e + off_target_id) (word_of_int (fst (node_dist D g0))) ?p1"
      and ne: "load16 (?e + off_target_id) p2 \<noteq> load16 (?e + off_source_id) p2"
      by auto
    have rs: "1 \<le> (word_of_int s :: 16 word)" "(word_of_int s :: 16 word) \<le> 20"
      using node_dist_word [OF ok, of g] by (simp_all add: s)
    have rt: "1 \<le> (word_of_int (fst (node_dist D g0)) :: 16 word)"
      "(word_of_int (fst (node_dist D g0)) :: 16 word) \<le> 20"
      using node_dist_word [OF ok, of g0] by simp_all
    have rw: "1 \<le> w" "w \<le> 1000"
      using strength_dist_range [OF ok, of g2] by (simp_all add: w)
    have k: "nat i < 50" using i50 by simp
    note step = write_edge [OF k "1.prems"(5) p2 ne refl rs rt rw "1.prems"(6) "1.prems"(7)]
    have suc: "nat (i + 1) = Suc (nat i)" using "1.prems"(3) by simp
    have "length p' = 304 \<and> (\<forall>e<nat num_edges. edge_ok p' e) \<and>
      (\<forall>j. edge_at (nat num_edges) \<le> j \<and> j < 304 \<longrightarrow> p' ! j = None) \<and>
      (\<forall>j<4. p' ! j = ?p3 ! j)"
    proof (rule "1.IH" [OF True _ refl s [symmetric] refl dt refl refl w [symmetric] refl rec ok])
      show "\<not> (i < 0 \<or> 50 \<le> i)" using i50 "1.prems"(3) by simp
      show "0 \<le> i + 1" "i + 1 \<le> num_edges" using True "1.prems"(3) by simp_all
      show "length ?p3 = 304" by (rule step(1))
      show "\<forall>e<nat (i + 1). edge_ok ?p3 e" unfolding suc by (rule step(2))
      show "\<forall>j. edge_at (nat (i + 1)) \<le> j \<and> j < 304 \<longrightarrow> ?p3 ! j = None"
        unfolding suc by (rule step(3))
    qed
    with step(4) show ?thesis by simp
  qed
qed

lemma edge_ok_cells:
  assumes "edge_ok p e" "edge_at e + 6 \<le> length p" "edge_at e \<le> j" "j < edge_at e + 6"
  shows "p ! j \<noteq> None"
proof -
  from assms(3,4) consider "j = edge_at e" | "j = Suc (edge_at e)" | "j = edge_at e + 2"
    | "j = Suc (edge_at e + 2)" | "j = edge_at e + 4" | "j = Suc (edge_at e + 4)"
    by linarith
  then show ?thesis
    using assms(1,2)
    by cases (auto simp: edge_ok_def load16_nth off_source_id_def off_target_id_def
        off_strength_def split: option.splits)
qed

lemma load16_take: "a + 2 \<le> n \<Longrightarrow> load16 a (take n m) = load16 a m"
  by (simp add: load16_def bytes_at_def drop_take min_def)

lemma edge_ok_take: "edge_at e + 6 \<le> n \<Longrightarrow> edge_ok (take n m) e = edge_ok m e"
  by (simp add: edge_ok_def load16_take off_source_id_def off_target_id_def off_strength_def)

lemma edge_count_word:
  assumes "GraphGenerator_dists_ok D"
  shows "unat (word_of_int (fst (edge_count_dist D g)) :: 16 word) = nat (fst (edge_count_dist D g))"
    and "6 \<le> nat (fst (edge_count_dist D g))" and "nat (fst (edge_count_dist D g)) \<le> 35"
proof -
  have r: "6 \<le> fst (edge_count_dist D g)" "fst (edge_count_dist D g) \<le> 35"
    using assms by (simp_all add: GraphGenerator_dists_ok_def MIN_EDGES_def MAX_EDGES_def)
  then show "unat (word_of_int (fst (edge_count_dist D g)) :: 16 word) = nat (fst (edge_count_dist D g))"
    by (simp add: unat_eq_nat_uint uint_word_of_int)
  from r show "6 \<le> nat (fst (edge_count_dist D g))" "nat (fst (edge_count_dist D g)) \<le> 35"
    by simp_all
qed

lemma generateGraph_packet:
  assumes ok: "GraphGenerator_dists_ok D"
    and gen: "generateGraph D sender_id g = Some (Inr (p, g'))"
  defines "k \<equiv> nat (fst (edge_count_dist D g))"
  shows "length p = 304"
    and "load16 off_sender_id p = Some sender_id"
    and "load16 off_edge_count p = Some (word_of_int (fst (edge_count_dist D g)))"
    and "\<forall>e<k. edge_ok p e"
    and "\<forall>j. edge_at k \<le> j \<and> j < 304 \<longrightarrow> p ! j = None"
    and "\<forall>j<edge_at k. p ! j \<noteq> None"
proof -
  obtain n g1 where n: "edge_count_dist D g = (n, g1)" by (cases "edge_count_dist D g")
  let ?p0 = "store16 off_edge_count (word_of_int n)
    (store16 off_sender_id sender_id (replicate sizeof_GraphPacket None))"
  from gen n have run: "for_edges D n 0 ?p0 g1 = Some (Inr (p, g'))"
    by (simp add: generateGraph_def)
  have n0: "0 \<le> n" using edge_count_word(2) [OF ok, of g] n by simp
  have len0: "length ?p0 = 304" by (simp add: sizeof_GraphPacket_def)
  have none0: "\<forall>j. edge_at (nat 0) \<le> j \<and> j < 304 \<longrightarrow> ?p0 ! j = None"
    by (auto simp: nth_store16 sizeof_GraphPacket_def off_edge_count_def off_sender_id_def offs)
  have inv: "length p = 304 \<and> (\<forall>e<nat n. edge_ok p e) \<and>
    (\<forall>j. edge_at (nat n) \<le> j \<and> j < 304 \<longrightarrow> p ! j = None) \<and> (\<forall>j<4. p ! j = ?p0 ! j)"
    by (rule for_edges_inv [OF run ok _ n0 len0 _ none0]) simp_all
  have kn: "k = nat n" by (simp add: k_def n)
  from inv show len: "length p = 304" by simp
  from inv show edges: "\<forall>e<k. edge_ok p e" by (simp add: kn)
  from inv show "\<forall>j. edge_at k \<le> j \<and> j < 304 \<longrightarrow> p ! j = None" by (simp add: kn)
  have head: "p ! 0 = ?p0 ! 0" "p ! Suc 0 = ?p0 ! Suc 0" "p ! 2 = ?p0 ! 2" "p ! 3 = ?p0 ! 3"
    using inv by simp_all
  have l0: "load16 0 p = load16 0 ?p0" "load16 2 p = load16 2 ?p0"
    using head len len0 by (simp_all add: load16_nth numeral_3_eq_3 numeral_2_eq_2)
  show "load16 off_sender_id p = Some sender_id"
    using l0 by (simp add: off_sender_id_def off_edge_count_def sizeof_GraphPacket_def
        load16_store16_same load16_store16_other)
  show "load16 off_edge_count p = Some (word_of_int (fst (edge_count_dist D g)))"
    using l0 by (simp add: off_sender_id_def off_edge_count_def sizeof_GraphPacket_def
        load16_store16_same load16_store16_other n)
  have k35: "k \<le> 35" using edge_count_word(3) [OF ok, of g] by (simp add: k_def)
  show "\<forall>j<edge_at k. p ! j \<noteq> None"
  proof (intro allI impI)
    fix j assume j: "j < edge_at k"
    show "p ! j \<noteq> None"
    proof (cases "j < 4")
      case True
      then have "p ! j = ?p0 ! j" using inv by simp
      moreover from True have "j = 0 \<or> j = 1 \<or> j = 2 \<or> j = 3" by linarith
      ultimately show ?thesis
        by (auto simp: nth_store16 sizeof_GraphPacket_def off_edge_count_def off_sender_id_def)
    next
      case False
      define e where "e = (j - 4) div 6"
      have "e < k" "edge_at e \<le> j" "j < edge_at e + 6"
        using False j by (auto simp: e_def offs)
      moreover have "edge_at e + 6 \<le> length p"
        using \<open>e < k\<close> k35 len by (simp add: offs)
      ultimately show ?thesis using edges edge_ok_cells by blast
    qed
  qed
qed

lemma send_graph_emits:
  assumes "send_graph E D server node_id (g, w) = Some (Inr (g', w'))"
  obtains p d where "generateGraph D node_id g = Some (Inr (p, g'))"
    and "graph_datagram p = Inr d"
    and "sent w' = sent w @ [(now w, d)]"
    and "now w' = now w + 200"
  using assms
  by (auto simp: send_graph_def sendPacket_def sendto_def sleep_for_def
      split: option.splits sum.splits prod.splits)

lemma graph_datagram_facts:
  assumes ok: "GraphGenerator_dists_ok D"
    and gen: "generateGraph D sender_id g = Some (Inr (p, g'))"
    and dg: "graph_datagram p = Inr d"
  defines "k \<equiv> nat (fst (edge_count_dist D g))"
  shows "d = take (edge_at k) p"
    and "length d = 4 + 6 * k"
    and "load16 off_sender_id d = Some sender_id"
    and "load16 off_edge_count d = Some (word_of_int (fst (edge_count_dist D g)))"
    and "\<forall>e<k. edge_ok d e"
    and "None \<notin> set d"
proof -
  note P = generateGraph_packet [OF ok gen, folded k_def]
  have uk: "unat (word_of_int (fst (edge_count_dist D g)) :: 16 word) = k"
    using edge_count_word(1) [OF ok, of g] by (simp add: k_def)
  have k: "6 \<le> k" "k \<le> 35"
    using edge_count_word(2,3) [OF ok, of g] by (simp_all add: k_def)
  have ek: "edge_at k = 4 + 6 * k" by (simp add: offs)
  from dg show d: "d = take (edge_at k) p"
    using k by (simp add: graph_datagram_def P(1,3) graph_send_size_unat uk bytes_at_def ek
        split: if_splits)
  then show len: "length d = 4 + 6 * k" using k by (simp add: P(1) ek)
  show "load16 off_sender_id d = Some sender_id"
    using P(2) k by (simp add: d load16_take ek off_sender_id_def)
  show "load16 off_edge_count d = Some (word_of_int (fst (edge_count_dist D g)))"
    using P(3) k by (simp add: d load16_take ek off_edge_count_def)
  show "\<forall>e<k. edge_ok d e"
    using P(4) by (auto simp: d edge_ok_take offs)
  show "None \<notin> set d"
    using P(6) len by (auto simp: d in_set_conv_nth)
qed

lemma D0_ok: "GraphGenerator_dists_ok D0"
proof -
  have "1 \<le> (word_of_nat (Suc (g mod 1000)) :: 16 word) \<and>
        (word_of_nat (Suc (g mod 1000)) :: 16 word) \<le> 1000" for g :: nat
  proof -
    have "Suc (g mod 1000) mod 2 ^ LENGTH(16) = Suc (g mod 1000)"
      by (rule mod_less) (simp add: less_trans [OF mod_less_divisor [of 1000 g]] Suc_lessI)
    then have "unat (word_of_nat (Suc (g mod 1000)) :: 16 word) = Suc (g mod 1000)"
      by (simp only: unat_of_nat)
    then show ?thesis
      by (simp add: word_le_nat_alt Suc_leI)
  qed
  moreover have "g div 2 mod 20 \<le> 19" "g mod 30 \<le> 29" for g :: nat
    by presburger+
  ultimately show ?thesis
    by (simp add: GraphGenerator_dists_ok_def D0_def NUM_NODES_def MIN_EDGES_def MAX_EDGES_def)
qed

lemma edge_count_uint:
  assumes "GraphGenerator_dists_ok D"
  shows "uint (word_of_int (fst (edge_count_dist D g)) :: 16 word) = fst (edge_count_dist D g)"
    and "MIN_EDGES \<le> fst (edge_count_dist D g)" and "fst (edge_count_dist D g) \<le> MAX_EDGES"
proof -
  show r: "MIN_EDGES \<le> fst (edge_count_dist D g)" "fst (edge_count_dist D g) \<le> MAX_EDGES"
    using assms by (simp_all add: GraphGenerator_dists_ok_def)
  then show "uint (word_of_int (fst (edge_count_dist D g)) :: 16 word) = fst (edge_count_dist D g)"
    by (simp add: uint_word_of_int MIN_EDGES_def MAX_EDGES_def)
qed

lemma send_graph_D0: "send_graph E0 D0 graph_server0 1 (0, w0) = Some (Inr (24, w1))"
  by code_simp

text \<open>
  Claim C2. Every graph datagram handed to \<open>sendto\<close> starts with the sender id and the
  edge count; the edge count is the draw of \<open>edge_count_dist\<close>, between \<open>MIN_EDGES\<close> = 6
  and \<open>MAX_EDGES\<close> = 35; the datagram is 4 + 6 \<times> edge count bytes long, hence never
  longer than 214 bytes.
\<close>

theorem graph_datagram_length:
  assumes "GraphGenerator_dists_ok D"
    and "send_graph E D server node_id (g, w) = Some (Inr (g', w'))"
  shows "\<exists>d edge_count. sent w' = sent w @ [(now w, d)] \<and>
    load16 off_sender_id d = Some node_id \<and>
    load16 off_edge_count d = Some edge_count \<and>
    edge_count = word_of_int (fst (edge_count_dist D g)) \<and>
    MIN_EDGES \<le> uint edge_count \<and> uint edge_count \<le> MAX_EDGES \<and>
    length d = 4 + 6 * unat edge_count \<and> length d \<le> 214"
proof -
  from assms(2) obtain p d where gen: "generateGraph D node_id g = Some (Inr (p, g'))"
    and dg: "graph_datagram p = Inr d" and sent: "sent w' = sent w @ [(now w, d)]"
    by (rule send_graph_emits)
  note F = graph_datagram_facts [OF assms(1) gen dg]
  note R = edge_count_word [OF assms(1), of g]
  let ?k = "word_of_int (fst (edge_count_dist D g)) :: 16 word"
  have "MIN_EDGES \<le> uint ?k" "uint ?k \<le> MAX_EDGES"
    using edge_count_uint [OF assms(1), of g] by simp_all
  moreover have "length d = 4 + 6 * unat ?k" "length d \<le> 214"
    using F(2) R by simp_all
  ultimately show ?thesis
    using sent F(3,4) by blast
qed

theorem graph_datagram_length_witness:
  "GraphGenerator_dists_ok D0 \<and> send_graph E0 D0 graph_server0 1 (0, w0) = Some (Inr (24, w1)) \<and>
   (\<exists>d edge_count. sent w1 = sent w0 @ [(now w0, d)] \<and>
    load16 off_sender_id d = Some 1 \<and>
    load16 off_edge_count d = Some edge_count \<and>
    edge_count = word_of_int (fst (edge_count_dist D0 0)) \<and>
    MIN_EDGES \<le> uint edge_count \<and> uint edge_count \<le> MAX_EDGES \<and>
    length d = 4 + 6 * unat edge_count \<and> length d \<le> 214)"
  using graph_datagram_length [OF D0_ok send_graph_D0] D0_ok send_graph_D0 by blast

text \<open>
  Claim C4. In every graph datagram handed to \<open>sendto\<close>, each of the \<open>edge_count\<close> edge
  records has distinct end points, both between 1 and 20, and a strength between 1 and
  1000.
\<close>

theorem graph_edges_valid:
  assumes "GraphGenerator_dists_ok D"
    and "send_graph E D server node_id (g, w) = Some (Inr (g', w'))"
  shows "\<exists>d edge_count. sent w' = sent w @ [(now w, d)] \<and>
    load16 off_edge_count d = Some edge_count \<and>
    (\<forall>i<unat edge_count. edge_ok d i)"
proof -
  from assms(2) obtain p d where gen: "generateGraph D node_id g = Some (Inr (p, g'))"
    and dg: "graph_datagram p = Inr d" and sent: "sent w' = sent w @ [(now w, d)]"
    by (rule send_graph_emits)
  note F = graph_datagram_facts [OF assms(1) gen dg]
  from F(5) have "\<forall>i<unat (word_of_int (fst (edge_count_dist D g)) :: 16 word). edge_ok d i"
    by (simp only: edge_count_word(1) [OF assms(1)])
  with sent F(4) show ?thesis by blast
qed

theorem graph_edges_valid_witness:
  "GraphGenerator_dists_ok D0 \<and> send_graph E0 D0 graph_server0 1 (0, w0) = Some (Inr (24, w1)) \<and>
   (\<exists>d edge_count. sent w1 = sent w0 @ [(now w0, d)] \<and>
    load16 off_edge_count d = Some edge_count \<and>
    (\<forall>i<unat edge_count. edge_ok d i))"
  using graph_edges_valid [OF D0_ok send_graph_D0] D0_ok send_graph_D0 by blast

text \<open>
  Claim C7. A graph datagram is the first 4 + 6 \<times> edge count bytes of the packet: the
  sender id, the edge count and the first \<open>edge_count\<close> edge records. Every byte of it
  was written before the send, and every byte of the packet from edge \<open>edge_count\<close> on,
  none of which is sent, was never written.
\<close>

theorem graph_datagram_written:
  assumes "GraphGenerator_dists_ok D"
    and "send_graph E D server node_id (g, w) = Some (Inr (g', w'))"
  shows "\<exists>packet d edge_count.
    generateGraph D node_id g = Some (Inr (packet, g')) \<and>
    sent w' = sent w @ [(now w, d)] \<and>
    load16 off_edge_count packet = Some edge_count \<and>
    d = bytes_at packet 0 (edge_at (unat edge_count)) \<and>
    length d = 4 + 6 * unat edge_count \<and>
    None \<notin> set d \<and>
    (\<forall>j. edge_at (unat edge_count) \<le> j \<and> j < sizeof_GraphPacket \<longrightarrow> packet ! j = None)"
proof -
  from assms(2) obtain p d where gen: "generateGraph D node_id g = Some (Inr (p, g'))"
    and dg: "graph_datagram p = Inr d" and sent: "sent w' = sent w @ [(now w, d)]"
    by (rule send_graph_emits)
  note F = graph_datagram_facts [OF assms(1) gen dg]
  note P = generateGraph_packet [OF assms(1) gen]
  let ?k = "word_of_int (fst (edge_count_dist D g)) :: 16 word"
  have uk: "unat ?k = nat (fst (edge_count_dist D g))"
    by (rule edge_count_word(1) [OF assms(1)])
  have "d = bytes_at p 0 (edge_at (unat ?k))"
    using F(1) by (simp add: bytes_at_def uk)
  moreover have "length d = 4 + 6 * unat ?k"
    using F(2) by (simp add: uk)
  moreover have "\<forall>j. edge_at (unat ?k) \<le> j \<and> j < sizeof_GraphPacket \<longrightarrow> p ! j = None"
    using P(5) by (simp add: uk sizeof_GraphPacket_def)
  ultimately show ?thesis
    using gen sent P(3) F(6) by blast
qed

theorem graph_datagram_written_witness:
  "GraphGenerator_dists_ok D0 \<and> send_graph E0 D0 graph_server0 1 (0, w0) = Some (Inr (24, w1)) \<and>
   (\<exists>packet d edge_count.
    generateGraph D0 1 0 = Some (Inr (packet, 24)) \<and>
    sent w1 = sent w0 @ [(now w0, d)] \<and>
    load16 off_edge_count packet = Some edge_count \<and>
    d = bytes_at packet 0 (edge_at (unat edge_count)) \<and>
    length d = 4 + 6 * unat edge_count \<and>
    None \<notin> set d \<and>
    (\<forall>j. edge_at (unat edge_count) \<le> j \<and> j < sizeof_GraphPacket \<longrightarrow> packet ! j = None))"
  using graph_datagram_written [OF D0_ok send_graph_D0] D0_ok send_graph_D0 by blast

section \<open>Position datagrams\<close>

lemmas bytes_eval = bytes_at_def load16_def load32_def take_Cons' drop_Cons' le16_def le32_def

lemma send_position_sent:
  "sent (send_position E F server nm node_id w) =
     sent w @ [(now w, position_datagram node_id
       (bits F (fst (getPosition nm node_id))) (bits F (snd (getPosition nm node_id))))]"
  by (simp add: send_position_def sendPacket_def sendto_def sleep_for_def Let_def)

lemma position_datagram_loads:
  "load16 0 (position_datagram node_id x y) = Some node_id"
  "load32 2 (position_datagram node_id x y) = Some x"
  "load32 6 (position_datagram node_id x y) = Some y"
  "load16 2 (position_record node_id x y) = Some node_id"
proof -
  show "load16 0 (position_datagram node_id x y) = Some node_id"
    using u16_of_le16 [of node_id]
    by (simp add: position_datagram_bytes bytes_eval)
  show "load32 2 (position_datagram node_id x y) = Some x"
    using u32_of_le32 [of x]
    by (simp add: position_datagram_bytes bytes_eval)
  show "load32 6 (position_datagram node_id x y) = Some y"
    using u32_of_le32 [of y]
    by (simp add: position_datagram_bytes bytes_eval)
  show "load16 2 (position_record node_id x y) = Some node_id"
    using u16_of_le16 [of node_id]
    by (simp add: position_record_bytes bytes_eval)
qed

text \<open>
  Claim C1, as the code has it. Every position datagram handed to \<open>sendto\<close> is 10 bytes
  long and packed: \<open>node_id\<close> in bytes 0 and 1, all four bytes of \<open>x\<close> in bytes 2 to 5
  and all four bytes of \<open>y\<close> in bytes 6 to 9, little-endian, with no padding byte.
\<close>

theorem position_datagram_layout:
  "\<exists>d. sent (send_position E F server nm node_id w) = sent w @ [(now w, d)] \<and>
     length d = 10 \<and>
     d = map Some (le16 node_id @ le32 (bits F (fst (getPosition nm node_id)))
                   @ le32 (bits F (snd (getPosition nm node_id)))) \<and>
     bytes_at d 0 2 = map Some (le16 node_id) \<and>
     bytes_at d 2 4 = map Some (le32 (bits F (fst (getPosition nm node_id)))) \<and>
     bytes_at d 6 4 = map Some (le32 (bits F (snd (getPosition nm node_id))))"
  by (simp add: send_position_sent position_datagram_bytes bytes_eval)

text \<open>
  The layout of claim C1 as it is stated (\<open>x\<close> in bytes 4 to 7, the first two bytes of
  \<open>y\<close> in bytes 8 and 9) fails for node 1 at \<open>x = 1.0\<close> and \<open>y = 1000.0\<close>, whose floats are
  \<open>0x3F800000\<close> and \<open>0x447A0000\<close>.
\<close>

theorem position_datagram_layout_counterexample:
  "\<not> (length (position_datagram 1 0x3F800000 0x447A0000) = 10 \<and>
      bytes_at (position_datagram 1 0x3F800000 0x447A0000) 0 2 = map Some (le16 1) \<and>
      bytes_at (position_datagram 1 0x3F800000 0x447A0000) 4 4 = map Some (le32 0x3F800000) \<and>
      bytes_at (position_datagram 1 0x3F800000 0x447A0000) 8 2 = map Some (take 2 (le32 0x447A0000)))"
  by (simp add: position_datagram_bytes bytes_eval drop_bit_eq_div)

text \<open>
  Claim C3, as the code has it. The first two bytes of a position datagram read as the
  two bytes that lie in the gap of the packet at the time of the send, which hold
  \<open>node_id\<close>; bytes 2 to 5 read as \<open>x\<close>; bytes 6 to 9 read as all 32 bits of \<open>y\<close>.
\<close>

theorem position_datagram_parse:
  "\<exists>d. sent (send_position E F server nm node_id w) = sent w @ [(now w, d)] \<and>
     load16 0 d = load16 2 (position_record node_id (bits F (fst (getPosition nm node_id)))
                             (bits F (snd (getPosition nm node_id)))) \<and>
     load16 0 d = Some node_id \<and>
     load32 2 d = Some (bits F (fst (getPosition nm node_id))) \<and>
     load32 6 d = Some (bits F (snd (getPosition nm node_id)))"
  by (simp add: send_position_sent position_datagram_loads)

text \<open>
  Claim C3 as it is stated has bytes 6 to 9 give the low half of \<open>y\<close> only. For
  \<open>y = 1000.0\<close> they read as \<open>0x447A0000\<close>, and the low half of that is 0.
\<close>

theorem position_datagram_parse_counterexample:
  "load32 6 (position_datagram 1 0x3F800000 0x447A0000) \<noteq> Some (take_bit 16 0x447A0000)"
  by (simp add: position_datagram_loads)

section \<open>The node manager\<close>

lemma clamp_bounds: "0 \<le> clamp v \<and> clamp v \<le> 1000"
  by (simp add: clamp_def std_max_def std_min_def)

lemma move_in_bounds: "in_bounds (move F p dx dy)"
  by (simp add: move_def in_bounds_def clamp_bounds)

lemma update_each_bounds:
  "update_each D F ps g = (ps', g') \<Longrightarrow> list_all (in_bounds \<circ> snd) ps \<Longrightarrow>
   list_all (in_bounds \<circ> snd) ps'"
proof (induction ps arbitrary: g ps' g')
  case Nil
  then show ?case by simp
next
  case (Cons a ps)
  obtain k p where a: "a = (k, p)" by (cases a)
  show ?case
    using Cons.prems Cons.IH
    by (auto simp: a move_in_bounds split: prod.splits if_splits)
qed

lemma update_each_keys:
  "update_each D F ps g = (ps', g') \<Longrightarrow> map fst ps' = map fst ps"
proof (induction ps arbitrary: g ps' g')
  case Nil
  then show ?case by simp
next
  case (Cons a ps)
  obtain k p where a: "a = (k, p)" by (cases a)
  show ?case
    using Cons.prems Cons.IH
    by (auto simp: a split: prod.splits if_splits)
qed

lemma set_subscript: "set (subscript k m) \<subseteq> insert (k, (0, 0)) (set m)"
  by (induction k m rule: subscript.induct) auto

lemma set_assign: "set (assign k v m) \<subseteq> insert (k, v) (set m)"
  by (induction k v m rule: assign.induct) auto

lemma keys_subscript: "fst ` set (subscript k m) = insert k (fst ` set m)"
  by (induction k m rule: subscript.induct) auto

lemma keys_assign: "fst ` set (assign k v m) = insert k (fst ` set m)"
  by (induction k v m rule: assign.induct) auto

lemma ascending_subscript: "ascending m \<Longrightarrow> ascending (subscript k m)"
proof (induction k m rule: subscript.induct)
  case (1 k)
  then show ?case by (simp add: ascending_def)
next
  case (2 k k' v m)
  then show ?case
    using keys_subscript [of k m]
    by (auto simp: ascending_def simp flip: set_map)
qed

lemma ascending_assign: "ascending m \<Longrightarrow> ascending (assign k v m)"
proof (induction k v m rule: assign.induct)
  case (1 k v)
  then show ?case by (simp add: ascending_def)
next
  case (2 k v k' v' m)
  then show ?case
    using keys_assign [of k v m]
    by (auto simp: ascending_def simp flip: set_map)
qed

lemma map_of_subscript:
  "ascending m \<Longrightarrow> map_of (subscript k m) k' =
     (if k' = k \<and> map_of m k = None then Some (0, 0) else map_of m k')"
proof (induction k m rule: subscript.induct)
  case (1 k)
  then show ?case by simp
next
  case (2 k k2 v m)
  have absent: "map_of m k = None" if "k < k2"
  proof -
    have "k \<notin> fst ` set m" using "2.prems" that by (auto simp: ascending_def)
    then show ?thesis by (simp add: map_of_eq_None_iff)
  qed
  from "2.prems" have "ascending m" by (simp add: ascending_def)
  with 2 absent show ?case by auto
qed

lemma fold_keeps:
  assumes "\<And>x s. P s \<Longrightarrow> P (f x s)" and "P s"
  shows "P (fold f xs s)"
  using assms(2) by (induction xs arbitrary: s) (simp_all add: assms(1))

lemma in_bounds_origin: "in_bounds (0, 0)"
  by (simp add: in_bounds_def)

lemma subscript_bounds:
  "list_all (in_bounds \<circ> snd) m \<Longrightarrow> list_all (in_bounds \<circ> snd) (subscript k m)"
  using set_subscript [of k m] by (auto simp: list_all_iff in_bounds_origin)

lemma assign_bounds:
  "in_bounds v \<Longrightarrow> list_all (in_bounds \<circ> snd) m \<Longrightarrow> list_all (in_bounds \<circ> snd) (assign k v m)"
  using set_assign [of k v m] by (auto simp: list_all_iff)

lemma getDistance_state:
  "snd (getDistance F s t nm) = nm\<lparr>positions := subscript t (subscript s (positions nm))\<rparr>"
  by (simp add: getDistance_def Let_def)

lemma getDistance_inv: "nm_inv nm \<Longrightarrow> nm_inv (snd (getDistance F s t nm))"
  by (simp add: getDistance_state nm_inv_def subscript_bounds ascending_subscript)

lemma updatePositions_inv: "nm_inv nm \<Longrightarrow> nm_inv (updatePositions D F nm)"
proof -
  assume inv: "nm_inv nm"
  obtain ps g where run: "update_each D F (positions nm) (gen nm) = (ps, g)"
    by (cases "update_each D F (positions nm) (gen nm)")
  have "list_all (in_bounds \<circ> snd) ps"
    using update_each_bounds [OF run] inv by (simp add: nm_inv_def)
  moreover have "ascending ps"
    using update_each_keys [OF run] inv by (simp add: nm_inv_def ascending_def)
  ultimately show ?thesis
    by (simp add: updatePositions_def run nm_inv_def)
qed

lemma pos_dist_bounds:
  "NodeManager_dists_ok D \<Longrightarrow> in_bounds (fst (pos_dist D g), fst (pos_dist D g'))"
  by (simp add: NodeManager_dists_ok_def in_bounds_def)

lemma new_node_inv:
  assumes "NodeManager_dists_ok D" "nm_inv nm"
  shows "nm_inv (new_node D i nm)"
proof -
  obtain x g1 where x: "pos_dist D (gen nm) = (x, g1)" by (cases "pos_dist D (gen nm)")
  obtain y g2 where y: "pos_dist D g1 = (y, g2)" by (cases "pos_dist D g1")
  have "in_bounds (x, y)"
    using pos_dist_bounds [OF assms(1), of "gen nm" g1] by (simp add: x y)
  then show ?thesis
    using assms(2) by (simp add: new_node_def x y nm_inv_def assign_bounds ascending_assign)
qed

lemma set_distance_inv: "nm_inv nm \<Longrightarrow> nm_inv (set_distance F i j nm)"
proof -
  assume inv: "nm_inv nm"
  let ?r = "getDistance F (node_ids nm ! i) (node_ids nm ! j) nm"
  have "positions (set_distance F i j nm) = positions (snd ?r)"
    by (simp add: set_distance_def Let_def split: prod.splits)
  then show ?thesis
    using getDistance_inv [OF inv, of F "node_ids nm ! i" "node_ids nm ! j"]
    by (simp add: nm_inv_def)
qed

lemma NodeManager_new_inv:
  assumes "NodeManager_dists_ok D"
  shows "nm_inv (NodeManager_new D F seed)"
proof -
  let ?nm0 = "\<lparr>node_ids = [], positions = [], distances = [], gen = seed\<rparr>"
  have "nm_inv ?nm0" by (simp add: nm_inv_def ascending_def)
  then have 1: "nm_inv (fold (new_node D) [1..NUM_NODES] ?nm0)"
    by (rule fold_keeps [rotated]) (rule new_node_inv [OF assms])
  have inner: "nm_inv (fold (set_distance F i) js nm)" if "nm_inv nm" for i js and nm :: "'a NodeManager"
    using that by (rule fold_keeps [rotated]) (rule set_distance_inv)
  have "nm_inv (fold (\<lambda>i. fold (set_distance F i) [i + 1..<nat NUM_NODES]) [0..<nat NUM_NODES]
      (fold (new_node D) [1..NUM_NODES] ?nm0))"
    using 1 by (rule fold_keeps [rotated]) (rule inner)
  then show ?thesis
    by (simp add: NodeManager_new_def)
qed

lemma reachable_inv:
  "reachable D F nm \<Longrightarrow> NodeManager_dists_ok D \<Longrightarrow> nm_inv nm"
  by (induction rule: reachable.induct)
    (simp_all add: NodeManager_new_inv updatePositions_inv getDistance_inv)

lemma Dt_ok: "NodeManager_dists_ok Dt"
proof -
  have "x mod 1001 \<le> 1000" "x mod 11 \<le> 10" "x mod 10 \<le> 9" for x :: int
    by presburger+
  then show ?thesis
    by (simp add: NodeManager_dists_ok_def Dt_def)
qed

lemma node_step_head:
  assumes "NodeManager_dists_ok D"
    and "coin_toss D g = (c, g1)" and "move_dist D g1 = (dx, g2)" and "move_dist D g2 = (dy, g3)"
  shows "cpp_rem c 2 \<noteq> 0 \<Longrightarrow> node_step D F g (k, p) (k, move F p dx dy) g3"
    and "cpp_rem c 2 = 0 \<Longrightarrow> node_step D F g (k, p) (k, p) g1"
proof -
  have r: "0 \<le> c" "c \<le> 9" "- 5 \<le> dx" "dx \<le> 5" "- 5 \<le> dy" "dy \<le> 5"
    using assms
    by (auto simp: NodeManager_dists_ok_def dest: spec [of _ g] spec [of _ g1] spec [of _ g2])
  show "cpp_rem c 2 \<noteq> 0 \<Longrightarrow> node_step D F g (k, p) (k, move F p dx dy) g3"
    unfolding node_step_def
    apply (rule conjI)
     apply simp
    apply (rule exI [of _ c], rule exI [of _ g1], rule exI [of _ dx],
        rule exI [of _ g2], rule exI [of _ dy], rule exI [of _ g3])
    apply (insert assms(2-4) r)
    apply (simp add: move_def)
    done
  show "cpp_rem c 2 = 0 \<Longrightarrow> node_step D F g (k, p) (k, p) g1"
    unfolding node_step_def
    apply (rule conjI)
     apply simp
    apply (rule exI [of _ c], rule exI [of _ g1], rule exI [of _ dx],
        rule exI [of _ g2], rule exI [of _ dy], rule exI [of _ g3])
    apply (insert assms(2-4) r)
    apply simp
    done
qed

lemma update_each_steps:
  "NodeManager_dists_ok D \<Longrightarrow> update_each D F ps g = (ps', g') \<Longrightarrow>
   \<exists>gs. length gs = Suc (length ps) \<and> gs ! 0 = g \<and> gs ! length ps = g' \<and>
     length ps' = length ps \<and>
     (\<forall>i<length ps. node_step D F (gs ! i) (ps ! i) (ps' ! i) (gs ! Suc i))"
proof (induction ps arbitrary: g ps' g')
  case Nil
  then show ?case by (intro exI [of _ "[g]"]) simp
next
  case (Cons a ps)
  obtain k p where a: "a = (k, p)" by (cases a)
  obtain c g1 where c: "coin_toss D g = (c, g1)" by (cases "coin_toss D g")
  obtain dx g2 where dx: "move_dist D g1 = (dx, g2)" by (cases "move_dist D g1")
  obtain dy g3 where dy: "move_dist D g2 = (dy, g3)" by (cases "move_dist D g2")
  note head = node_step_head [OF Cons.prems(1) c dx dy, of F k p]
  define b where "b = (if cpp_rem c 2 \<noteq> 0 then (k, move F p dx dy) else (k, p))"
  define h where "h = (if cpp_rem c 2 \<noteq> 0 then g3 else g1)"
  have first: "node_step D F g a b h"
    using head by (simp add: a b_def h_def)
  obtain qs h' where rest: "update_each D F ps h = (qs, h')" by (cases "update_each D F ps h")
  with Cons.prems(2) have ps': "ps' = b # qs" and g': "g' = h'"
    by (auto simp: a c dx dy b_def h_def split: if_splits)
  from Cons.IH [OF Cons.prems(1) rest] obtain gs where
    gs: "length gs = Suc (length ps)" "gs ! 0 = h" "gs ! length ps = h'" "length qs = length ps"
    and steps: "\<forall>i<length ps. node_step D F (gs ! i) (ps ! i) (qs ! i) (gs ! Suc i)"
    by blast
  have "\<forall>i<length (a # ps).
      node_step D F ((g # gs) ! i) ((a # ps) ! i) (ps' ! i) ((g # gs) ! Suc i)"
  proof (intro allI impI)
    fix i assume i: "i < length (a # ps)"
    show "node_step D F ((g # gs) ! i) ((a # ps) ! i) (ps' ! i) ((g # gs) ! Suc i)"
    proof (cases i)
      case 0
      then show ?thesis using first gs(2) by (simp add: ps')
    next
      case (Suc j)
      then show ?thesis using steps i by (simp add: ps')
    qed
  qed
  then show ?case
    using gs by (intro exI [of _ "g # gs"]) (simp add: ps' g')
qed

text \<open>
  Claim C6, as the code has it. A tick keeps the ids and goes through the nodes in the
  order of their ids with one engine: the states \<open>gs\<close> of the engine before each node and
  after the last. For each node it draws one value of \<open>coin_toss\<close>, between 0 and 9. When
  the value is odd, as 5 of the 10 values are, the node moves on both axes: each coordinate
  gets its own draw of \<open>move_dist\<close>, between -5 and 5, and is then clamped. When the value
  is even, neither coordinate changes. Every coin and every delta is a draw of its own,
  made at the state in which the draw before it left the engine.
\<close>

theorem tick_one_coin_per_node:
  assumes "NodeManager_dists_ok D"
  shows "(\<exists>gs. length gs = Suc (length (positions nm)) \<and>
      gs ! 0 = gen nm \<and> gs ! length (positions nm) = gen (updatePositions D F nm) \<and>
      length (positions (updatePositions D F nm)) = length (positions nm) \<and>
      (\<forall>i<length (positions nm).
         node_step D F (gs ! i) (positions nm ! i) (positions (updatePositions D F nm) ! i)
           (gs ! Suc i))) \<and>
    length (filter (\<lambda>c. cpp_rem c 2 \<noteq> 0) [0..9]) * 2 = length [0..9::int]"
proof -
  obtain ps g where run: "update_each D F (positions nm) (gen nm) = (ps, g)"
    by (cases "update_each D F (positions nm) (gen nm)")
  have "positions (updatePositions D F nm) = ps" "gen (updatePositions D F nm) = g"
    by (simp_all add: updatePositions_def run)
  with update_each_steps [OF assms run]
  have "\<exists>gs. length gs = Suc (length (positions nm)) \<and>
      gs ! 0 = gen nm \<and> gs ! length (positions nm) = gen (updatePositions D F nm) \<and>
      length (positions (updatePositions D F nm)) = length (positions nm) \<and>
      (\<forall>i<length (positions nm).
         node_step D F (gs ! i) (positions nm ! i) (positions (updatePositions D F nm) ! i)
           (gs ! Suc i))"
    by simp
  moreover have "length (filter (\<lambda>c. cpp_rem c 2 \<noteq> 0) [0..9]) * 2 = length [0..9::int]"
    by code_simp
  ultimately show ?thesis ..
qed

lemma updatePositions_nm_c: "updatePositions Dt F0 nm_c = nm_d"
  by code_simp

theorem tick_one_coin_per_node_witness:
  "NodeManager_dists_ok Dt \<and> updatePositions Dt F0 nm_c = nm_d \<and>
   (\<exists>gs. length gs = Suc (length (positions nm_c)) \<and>
      gs ! 0 = gen nm_c \<and> gs ! length (positions nm_c) = gen nm_d \<and>
      length (positions nm_d) = length (positions nm_c) \<and>
      (\<forall>i<length (positions nm_c).
         node_step Dt F0 (gs ! i) (positions nm_c ! i) (positions nm_d ! i) (gs ! Suc i))) \<and>
    length (filter (\<lambda>c. cpp_rem c 2 \<noteq> 0) [0..9]) * 2 = length [0..9::int]"
  using tick_one_coin_per_node [OF Dt_ok, of nm_c F0] Dt_ok updatePositions_nm_c
  by (simp only: simp_thms)

text \<open>
  Claim C6 as it is stated has each axis move independently with probability 1/2. With
  the deltas fixed at (1, 1) and a node at (500, 500), over the ten values of the coin
  the axes move together: both in 5 cases, exactly one in none. So the share of the
  cases where both move, 5 of 10, is not the product of the shares of the two axes.
\<close>

theorem tick_axes_counterexample:
  "length (filter both_moved [0..9]) * length [0..9::int] \<noteq>
   length (filter x_moved [0..9]) * length (filter y_moved [0..9])"
  by code_simp

text \<open>
  Claim C5. In every state of the node manager that the constructor and then any number
  of calls of \<open>updatePositions\<close> (and of \<open>getDistance\<close>) lead to, both coordinates of
  every node lie between 0 and 1000. A node at (0, 0) that gets the delta (-5, -5) stays
  at (0, 0), and a node at (1000, 1000) that gets (+5, +5) stays at (1000, 1000); the two
  sums, -5 and 1005, are floats, which the rounding leaves as they are.
\<close>

theorem positions_in_bounds:
  assumes "NodeManager_dists_ok D" and "reachable D F nm"
    and "rnd F (- 5) = - 5" and "rnd F 1005 = 1005"
  shows "list_all (in_bounds \<circ> snd) (positions nm) \<and>
    move F (0, 0) (- 5) (- 5) = (0, 0) \<and>
    move F (1000, 1000) 5 5 = (1000, 1000)"
proof -
  have "list_all (in_bounds \<circ> snd) (positions nm)"
    using reachable_inv [OF assms(2,1)] by (simp add: nm_inv_def)
  moreover have "move F (0, 0) (- 5) (- 5) = (0, 0)"
    by (simp add: move_def clamp_def std_max_def std_min_def assms(3))
  moreover have "move F (1000, 1000) 5 5 = (1000, 1000)"
    by (simp add: move_def clamp_def std_max_def std_min_def assms(4))
  ultimately show ?thesis by simp
qed

theorem positions_in_bounds_witness:
  "NodeManager_dists_ok Dt \<and>
   reachable Dt F0 (updatePositions Dt F0 (NodeManager_new Dt F0 [500, 1000, 7])) \<and>
   rnd F0 (- 5) = - 5 \<and> rnd F0 1005 = 1005 \<and>
   list_all (in_bounds \<circ> snd)
     (positions (updatePositions Dt F0 (NodeManager_new Dt F0 [500, 1000, 7]))) \<and>
   move F0 (0, 0) (- 5) (- 5) = (0, 0) \<and>
   move F0 (1000, 1000) 5 5 = (1000, 1000)"
proof -
  have r: "reachable Dt F0 (updatePositions Dt F0 (NodeManager_new Dt F0 [500, 1000, 7]))"
    by (intro reachable.tick reachable.new)
  have f: "rnd F0 (- 5) = - 5" "rnd F0 1005 = 1005"
    by (simp_all add: F0_def)
  show ?thesis
    using positions_in_bounds [OF Dt_ok r f] Dt_ok r f by simp
qed

text \<open>
  Claim C10. \<open>getDistance(s, t)\<close> leaves \<open>node_ids\<close> as it is and changes \<open>positions\<close>
  only by adding (0, 0) for each of \<open>s\<close> and \<open>t\<close> that was not a key. The distance it
  returns is computed, in float arithmetic, from the positions found after that: the
  ones \<open>getPosition\<close> gives, which are (0, 0) for an id that was not known.
\<close>

theorem getDistance_inserts:
  assumes "ascending (positions nm)" and "getDistance F s t nm = (d, nm')"
  shows "node_ids nm' = node_ids nm \<and>
    (\<forall>k. map_find k (positions nm') =
       (if (k = s \<or> k = t) \<and> map_find k (positions nm) = None then Some (0, 0)
        else map_find k (positions nm))) \<and>
    d = (let ps = getPosition nm' s; pt = getPosition nm' t;
             dx = rnd F (fst ps - fst pt); dy = rnd F (snd ps - snd pt)
         in rnd F (sqrt (rnd F (rnd F (dx * dx) + rnd F (dy * dy))))) \<and>
    getPosition nm' s = getPosition nm s \<and> getPosition nm' t = getPosition nm t"
proof -
  let ?ps = "subscript t (subscript s (positions nm))"
  have nm': "nm' = nm\<lparr>positions := ?ps\<rparr>"
    using assms(2) getDistance_state [of F s t nm] by simp
  have a1: "ascending (subscript s (positions nm))"
    by (rule ascending_subscript [OF assms(1)])
  have look: "map_find k ?ps =
       (if (k = s \<or> k = t) \<and> map_find k (positions nm) = None then Some (0, 0)
        else map_find k (positions nm))" for k
    unfolding map_find_def map_of_subscript [OF a1] map_of_subscript [OF assms(1)]
    by auto
  have s: "map_find s ?ps = Some (getPosition nm' s)" and t: "map_find t ?ps = Some (getPosition nm' t)"
    by (auto simp: nm' getPosition_def look split: option.splits)
  have "d = (let ps = getPosition nm' s; pt = getPosition nm' t;
             dx = rnd F (fst ps - fst pt); dy = rnd F (snd ps - snd pt)
         in rnd F (sqrt (rnd F (rnd F (dx * dx) + rnd F (dy * dy)))))"
    using assms(2) by (simp add: getDistance_def Let_def s t)
  moreover have "getPosition nm' s = getPosition nm s" "getPosition nm' t = getPosition nm t"
    by (auto simp: nm' getPosition_def look split: option.splits)
  ultimately show ?thesis
    using look by (simp add: nm')
qed

lemma sqrt_25: "sqrt 25 = 5"
  using real_sqrt_abs2 [of 5] by simp

theorem getDistance_inserts_witness:
  "ascending (positions nm_a) \<and>
   getDistance F0 1 7 nm_a = (5, nm_b) \<and>
   node_ids nm_b = node_ids nm_a \<and>
   (\<forall>k. map_find k (positions nm_b) =
       (if (k = 1 \<or> k = 7) \<and> map_find k (positions nm_a) = None then Some (0, 0)
        else map_find k (positions nm_a))) \<and>
   5 = (let ps = getPosition nm_b 1; pt = getPosition nm_b 7;
            dx = rnd F0 (fst ps - fst pt); dy = rnd F0 (snd ps - snd pt)
        in rnd F0 (sqrt (rnd F0 (rnd F0 (dx * dx) + rnd F0 (dy * dy))))) \<and>
   getPosition nm_b 1 = getPosition nm_a 1 \<and> getPosition nm_b 7 = getPosition nm_a 7"
proof -
  have a: "ascending (positions nm_a)"
    by (simp add: ascending_def nm_a_def)
  have run: "getDistance F0 1 7 nm_a = (5, nm_b)"
    by (simp add: getDistance_def nm_a_def nm_b_def F0_def map_find_def sqrt_25)
  show ?thesis
    using conjI [OF a conjI [OF run getDistance_inserts [OF a run]]] .
qed

section \<open>Sends that fail\<close>

lemma sendPacket_eq:
  "sendPacket E server d w =
     ((), w\<lparr>sent := sent w @ [(now w, d)], trace := trace w @ [Send d]\<rparr>)"
  by (simp add: sendPacket_def sendto_def)

lemma send_position_fields:
  "now (send_position E F server nm node_id w) = now w + 10"
  "map fst (sent (send_position E F server nm node_id w)) = map fst (sent w) @ [now w]"
  "log (send_position E F server nm node_id w) = log w"
  by (simp_all add: send_position_def sendPacket_eq sleep_for_def Let_def)

lemma load_running_indep: "load_running (E\<lparr>os_accepts := a\<rparr>) w = load_running E w"
  by (simp add: load_running_def)

lemma upt_times_shift:
  "map (\<lambda>i. t + 10 * i) [0..<Suc n] = t # map (\<lambda>i. t + 10 + 10 * i) [0..<n]"
proof -
  have "[0..<Suc n] = 0 # map Suc [0..<n]"
    by (simp add: upt_conv_Cons map_Suc_upt del: upt_Suc)
  then show ?thesis by (simp add: comp_def del: upt_Suc)
qed

lemma fold_send_position:
  "now (fold (send_position E F server nm) ids w) = now w + 10 * length ids \<and>
   map fst (sent (fold (send_position E F server nm) ids w)) =
     map fst (sent w) @ map (\<lambda>i. now w + 10 * i) [0..<length ids] \<and>
   log (fold (send_position E F server nm) ids w) = log w"
proof (induction ids arbitrary: w)
  case Nil
  then show ?case by simp
next
  case (Cons a ids)
  let ?w1 = "send_position E F server nm a w"
  have f: "fold (send_position E F server nm) (a # ids) w =
      fold (send_position E F server nm) ids ?w1"
    by simp
  note IH = Cons [of ?w1, unfolded send_position_fields]
  show ?case
    unfolding f using IH by (simp add: upt_times_shift del: upt_Suc)
qed

lemma node_ids_updatePositions: "node_ids (updatePositions D F nm) = node_ids nm"
  by (simp add: updatePositions_def split: prod.splits)

lemma position_sweep_facts:
  fixes st :: "'g NodeManager \<times> world"
  defines "n \<equiv> length (node_ids (fst st))"
  shows "now (snd (position_sweep E D F server st)) = now (snd st) + 10 * n + 100"
    and "map fst (sent (snd (position_sweep E D F server st))) =
      map fst (sent (snd st)) @ map (\<lambda>i. now (snd st) + 10 * i) [0..<n]"
    and "node_ids (fst (position_sweep E D F server st)) = node_ids (fst st)"
  by (simp_all add: position_sweep_def Let_def sleep_for_def fold_send_position getNodeIds_def
      node_ids_updatePositions n_def)

lemma position_sweep_indep:
  "position_sweep (E\<lparr>os_accepts := a\<rparr>) D F server st = position_sweep E D F server st"
proof -
  have "send_position (E\<lparr>os_accepts := a\<rparr>) F server nm = send_position E F server nm" for nm :: "'a NodeManager"
    by (rule ext)+ (simp add: send_position_def sendPacket_eq)
  then show ?thesis by (simp add: position_sweep_def)
qed

lemma send_graph_indep:
  "send_graph (E\<lparr>os_accepts := a\<rparr>) D server node_id st = send_graph E D server node_id st"
  by (simp add: send_graph_def sendPacket_eq split: option.splits sum.splits prod.splits)

lemma graph_for_indep:
  "graph_for (E\<lparr>os_accepts := a\<rparr>) D server ids st = graph_for E D server ids st"
  by (induction ids arbitrary: st) (simp_all add: send_graph_indep split: option.splits sum.splits)

lemma graph_sweep_indep:
  "graph_sweep (E\<lparr>os_accepts := a\<rparr>) D server st = graph_sweep E D server st"
  by (simp add: graph_sweep_def graph_for_indep)

lemma position_loop_accepts:
  assumes "position_loop E D F server st = Some y"
  shows "position_loop (E\<lparr>os_accepts := a\<rparr>) D F server st = Some y"
proof (rule position_loop.raw_induct [where P = "\<lambda>E D F server st y.
    position_loop (E\<lparr>os_accepts := a\<rparr>) D F server st = Some y", OF _ assms])
  fix pl and E :: env and D :: "'a NodeManager_dists" and F server st y
  assume IH: "\<And>E D F server st y. pl E D F server st = Some y \<Longrightarrow>
      position_loop (E\<lparr>os_accepts := a\<rparr>) D F server st = Some y"
    and body: "(let (r, w) = load_running E (snd st)
      in if r then pl E D F server (position_sweep E D F server (fst st, w))
         else Some (fst st, w)) = Some y"
  obtain r w where l: "load_running E (snd st) = (r, w)" by (cases "load_running E (snd st)")
  show "position_loop (E\<lparr>os_accepts := a\<rparr>) D F server st = Some y"
  proof (cases r)
    case True
    with body l have "pl E D F server (position_sweep E D F server (fst st, w)) = Some y"
      by simp
    from IH [OF this] True l show ?thesis
      by (subst position_loop.simps) (simp add: position_sweep_indep load_running_indep)
  next
    case False
    with body l show ?thesis
      by (subst position_loop.simps) (simp add: load_running_indep)
  qed
qed

lemma position_loop_indep:
  "position_loop (E\<lparr>os_accepts := a\<rparr>) D F server st = position_loop E D F server st"
proof (cases "position_loop E D F server st")
  case (Some y)
  then show ?thesis by (simp add: position_loop_accepts)
next
  case None
  show ?thesis
  proof (cases "position_loop (E\<lparr>os_accepts := a\<rparr>) D F server st")
    case None
    with \<open>position_loop E D F server st = None\<close> show ?thesis by simp
  next
    case (Some y)
    from position_loop_accepts [OF this, of "os_accepts E"]
    have "position_loop E D F server st = Some y" by simp
    with \<open>position_loop E D F server st = None\<close> show ?thesis by simp
  qed
qed

lemma graph_loop_accepts:
  assumes "graph_loop E D server st = Some y"
  shows "graph_loop (E\<lparr>os_accepts := a\<rparr>) D server st = Some y"
proof (rule graph_loop.raw_induct [where P = "\<lambda>E D server st y.
    graph_loop (E\<lparr>os_accepts := a\<rparr>) D server st = Some y", OF _ assms])
  fix gl and E :: env and D :: "'a GraphGenerator_dists" and server st y
  assume IH: "\<And>E D server st y. gl E D server st = Some y \<Longrightarrow>
      graph_loop (E\<lparr>os_accepts := a\<rparr>) D server st = Some y"
    and body: "(let (r, w) = load_running E (snd st)
      in if r then case graph_sweep E D server (fst st, w) of
                     None \<Rightarrow> None
                   | Some (Inl f) \<Rightarrow> Some (Inl f)
                   | Some (Inr st') \<Rightarrow> gl E D server st'
         else Some (Inr (fst st, w))) = Some y"
  obtain r w where l: "load_running E (snd st) = (r, w)" by (cases "load_running E (snd st)")
  show "graph_loop (E\<lparr>os_accepts := a\<rparr>) D server st = Some y"
  proof (cases r)
    case False
    with body l show ?thesis
      by (subst graph_loop.simps) (simp add: load_running_indep)
  next
    case True
    show ?thesis
    proof (cases "graph_sweep E D server (fst st, w)")
      case None
      with body True l show ?thesis by simp
    next
      case (Some res)
      show ?thesis
      proof (cases res)
        case (Inl f)
        with body True Some l show ?thesis
          by (subst graph_loop.simps) (auto simp: graph_sweep_indep load_running_indep)
      next
        case (Inr st')
        with body True Some l have "gl E D server st' = Some y" by simp
        from IH [OF this] True Some Inr l show ?thesis
          by (subst graph_loop.simps) (simp add: graph_sweep_indep load_running_indep)
      qed
    qed
  qed
qed

lemma graph_loop_indep:
  "graph_loop (E\<lparr>os_accepts := a\<rparr>) D server st = graph_loop E D server st"
proof (cases "graph_loop E D server st")
  case (Some y)
  then show ?thesis by (simp add: graph_loop_accepts)
next
  case None
  show ?thesis
  proof (cases "graph_loop (E\<lparr>os_accepts := a\<rparr>) D server st")
    case None
    with \<open>graph_loop E D server st = None\<close> show ?thesis by simp
  next
    case (Some y)
    from graph_loop_accepts [OF this, of "os_accepts E"]
    have "graph_loop E D server st = Some y" by simp
    with \<open>graph_loop E D server st = None\<close> show ?thesis by simp
  qed
qed

text \<open>
  Claim C9, as the code has it. \<open>sendPacket\<close> hands the buffer to \<open>sendto\<close> once, as one
  datagram, and has no result: what the operating system answers is dropped. So the run
  of a producer does not depend on it. A sweep of the position producer calls \<open>sendto\<close>
  once per node whatever the answers are, and the sweeps and whole runs of both producers are
  the same under any other behaviour \<open>a\<close> of the operating system.
\<close>

theorem sendPacket_drops_result:
  "sent (snd (sendPacket E server d w)) = sent w @ [(now w, d)] \<and>
   sendPacket (E\<lparr>os_accepts := a\<rparr>) server d w = sendPacket E server d w \<and>
   position_sweep (E\<lparr>os_accepts := a\<rparr>) D F server st = position_sweep E D F server st \<and>
   length (sent (snd (position_sweep E D F server st))) =
     length (sent (snd st)) + length (node_ids (fst st)) \<and>
   position_loop (E\<lparr>os_accepts := a\<rparr>) D F server st = position_loop E D F server st \<and>
   graph_sweep (E\<lparr>os_accepts := a\<rparr>) D' server st' = graph_sweep E D' server st' \<and>
   graph_loop (E\<lparr>os_accepts := a\<rparr>) D' server st' = graph_loop E D' server st'"
proof -
  have "length (map fst (sent (snd (position_sweep E D F server st)))) =
     length (sent (snd st)) + length (node_ids (fst st))"
    by (simp only: position_sweep_facts(2)) simp
  then show ?thesis
    by (simp add: sendPacket_eq position_sweep_indep position_loop_indep graph_sweep_indep
        graph_loop_indep)
qed

text \<open>
  Claim C9 as it is stated has \<open>sendPacket\<close> report a failure exactly when the operating
  system rejects the datagram. Here \<open>sendto\<close> returns \<open>SOCKET_ERROR\<close> under \<open>E0\<close> and 1 when
  the datagram is accepted, and \<open>sendPacket\<close> returns the same in both cases.
\<close>

theorem sendPacket_counterexample:
  "fst (sendto E0 [Some 1] w0) = SOCKET_ERROR \<and>
   fst (sendto (E0\<lparr>os_accepts := (\<lambda>n. True)\<rparr>) [Some 1] w0) = 1 \<and>
   fst (sendPacket E0 graph_server0 [Some 1] w0) =
   fst (sendPacket (E0\<lparr>os_accepts := (\<lambda>n. True)\<rparr>) graph_server0 [Some 1] w0)"
  by (simp add: sendto_def E0_def w0_def)

section \<open>Leaving the while loop\<close>

lemma events_Nil [simp]: "loads_in [] = 0" "sends_in [] = 0" "slept_in [] = 0"
  by (simp_all add: loads_in_def sends_in_def slept_in_def)

lemma events_Cons [simp]:
  "loads_in (Load r # tr) = Suc (loads_in tr)" "loads_in (Send d # tr) = loads_in tr"
  "loads_in (Sleep ms # tr) = loads_in tr"
  "sends_in (Load r # tr) = sends_in tr" "sends_in (Send d # tr) = Suc (sends_in tr)"
  "sends_in (Sleep ms # tr) = sends_in tr"
  "slept_in (Load r # tr) = slept_in tr" "slept_in (Send d # tr) = slept_in tr"
  "slept_in (Sleep ms # tr) = ms + slept_in tr"
  by (simp_all add: loads_in_def sends_in_def slept_in_def)

lemma events_append [simp]:
  "loads_in (a @ b) = loads_in a + loads_in b"
  "sends_in (a @ b) = sends_in a + sends_in b"
  "slept_in (a @ b) = slept_in a + slept_in b"
  by (simp_all add: loads_in_def sends_in_def slept_in_def)

lemma events_drop_le:
  "loads_in (drop n tr) \<le> loads_in tr"
  "sends_in (drop n tr) \<le> sends_in tr"
  "slept_in (drop n tr) \<le> slept_in tr"
proof -
  have "loads_in (take n tr @ drop n tr) = loads_in tr"
    "sends_in (take n tr @ drop n tr) = sends_in tr"
    "slept_in (take n tr @ drop n tr) = slept_in tr"
    by simp_all
  then show "loads_in (drop n tr) \<le> loads_in tr" "sends_in (drop n tr) \<le> sends_in tr"
    "slept_in (drop n tr) \<le> slept_in tr"
    by (simp_all only: events_append)
qed

lemma send_position_trace:
  "\<exists>d. trace (send_position E F server nm node_id w) = trace w @ [Send d, Sleep 10]"
  by (simp add: send_position_def sendPacket_eq sleep_for_def Let_def)

lemma fold_send_position_trace:
  "\<exists>sw. trace (fold (send_position E F server nm) ids w) = trace w @ sw \<and>
     length sw = 2 * length ids \<and> loads_in sw = 0 \<and> sends_in sw = length ids \<and>
     slept_in sw = 10 * length ids"
proof (induction ids arbitrary: w)
  case Nil
  then show ?case by simp
next
  case (Cons a ids)
  let ?w1 = "send_position E F server nm a w"
  from send_position_trace [of E F server nm a w]
  obtain d where one: "trace ?w1 = trace w @ [Send d, Sleep 10]" by blast
  from Cons [of ?w1] obtain sw where
    sw: "trace (fold (send_position E F server nm) ids ?w1) = trace ?w1 @ sw"
      "length sw = 2 * length ids" "loads_in sw = 0" "sends_in sw = length ids"
      "slept_in sw = 10 * length ids"
    by blast
  show ?case
    using sw one by (intro exI [of _ "[Send d, Sleep 10] @ sw"]) simp
qed

lemma position_sweep_trace:
  assumes "length (node_ids (fst st)) = 20"
  shows "\<exists>sw. trace (snd (position_sweep E D F server st)) = trace (snd st) @ sw \<and>
     length sw = 41 \<and> loads_in sw = 0 \<and> sends_in sw = 20 \<and> slept_in sw = 300"
proof -
  let ?nm = "updatePositions D F (fst st)"
  have n: "length (getNodeIds ?nm) = 20"
    using assms by (simp add: getNodeIds_def node_ids_updatePositions)
  from fold_send_position_trace [of E F server ?nm "getNodeIds ?nm" "snd st", unfolded n]
  obtain sw where
    sw: "trace (fold (send_position E F server ?nm) (getNodeIds ?nm) (snd st)) = trace (snd st) @ sw"
      "length sw = 2 * 20" "loads_in sw = 0" "sends_in sw = 20" "slept_in sw = 10 * 20"
    by blast
  show ?thesis
    using sw
    by (intro exI [of _ "sw @ [Sleep 100]"]) (simp add: position_sweep_def Let_def sleep_for_def)
qed

lemma send_graph_trace:
  assumes "send_graph E D server node_id st = Some (Inr st')"
  shows "\<exists>d. trace (snd st') = trace (snd st) @ [Send d, Sleep 200]"
  using assms
  by (auto simp: send_graph_def sendPacket_eq sleep_for_def
      split: option.splits sum.splits prod.splits)

lemma graph_for_trace:
  "graph_for E D server ids st = Some (Inr st') \<Longrightarrow>
   \<exists>sw. trace (snd st') = trace (snd st) @ sw \<and> length sw = 2 * length ids \<and>
     loads_in sw = 0 \<and> sends_in sw = length ids \<and> slept_in sw = 200 * length ids"
proof (induction ids arbitrary: st)
  case Nil
  then show ?case by simp
next
  case (Cons a ids)
  from Cons.prems obtain st1 where one: "send_graph E D server a st = Some (Inr st1)"
    and rest: "graph_for E D server ids st1 = Some (Inr st')"
    by (auto split: option.splits sum.splits)
  from send_graph_trace [OF one]
  obtain d where d: "trace (snd st1) = trace (snd st) @ [Send d, Sleep 200]" by blast
  from Cons.IH [OF rest] obtain sw where
    sw: "trace (snd st') = trace (snd st1) @ sw" "length sw = 2 * length ids"
      "loads_in sw = 0" "sends_in sw = length ids" "slept_in sw = 200 * length ids"
    by blast
  show ?case
    using sw d by (intro exI [of _ "[Send d, Sleep 200] @ sw"]) simp
qed

lemma graph_sweep_trace:
  assumes "graph_sweep E D server st = Some (Inr st')"
  shows "\<exists>sw. trace (snd st') = trace (snd st) @ sw \<and>
     length sw = 41 \<and> loads_in sw = 0 \<and> sends_in sw = 20 \<and> slept_in sw = 6000"
proof -
  from assms obtain st1 where
    run: "graph_for E D server (map word_of_int [1..NUM_NODES]) st = Some (Inr st1)"
    and st': "st' = (fst st1, sleep_for 2000 (snd st1))"
    by (auto simp: graph_sweep_def split: option.splits sum.splits prod.splits)
  have n: "length (map word_of_int [1..NUM_NODES] :: 16 word list) = 20"
    by (simp add: NUM_NODES_def)
  from graph_for_trace [OF run, unfolded n] obtain sw where
    sw: "trace (snd st1) = trace (snd st) @ sw" "length sw = 2 * 20"
      "loads_in sw = 0" "sends_in sw = 20" "slept_in sw = 200 * 20"
    by blast
  show ?thesis
    using sw by (intro exI [of _ "sw @ [Sleep 2000]"]) (simp add: st' sleep_for_def)
qed

text \<open>
  A turn of a loop adds a load that saw the flag set and the 41 events \<open>sw\<close> of a sweep.
  \<open>ev\<close> are the events after that turn, and \<open>S\<close> is the instant at which the flag is
  cleared, after the load of this turn.
\<close>

lemma after_sweep:
  assumes sw: "length sw = 41" "loads_in sw = 0" "sends_in sw = 20" "slept_in sw = T"
    and lt: "len < S"
    and stop: "S \<le> len + 42 \<Longrightarrow> ev = [Load False]"
    and rest: "loads_in (drop (S - (len + 42)) ev) = 1"
      "sends_in (drop (S - (len + 42)) ev) \<le> 20"
      "slept_in (drop (S - (len + 42)) ev) \<le> T"
  shows "loads_in (drop (S - len) (Load True # sw @ ev)) = 1"
    and "sends_in (drop (S - len) (Load True # sw @ ev)) \<le> 20"
    and "slept_in (drop (S - len) (Load True # sw @ ev)) \<le> T"
proof -
  have "loads_in (drop (S - len) (Load True # sw @ ev)) = 1 \<and>
    sends_in (drop (S - len) (Load True # sw @ ev)) \<le> 20 \<and>
    slept_in (drop (S - len) (Load True # sw @ ev)) \<le> T"
  proof (cases "S \<le> len + 42")
    case True
    obtain m where m: "S - len = Suc m" "m \<le> 41" using lt True by (cases "S - len") auto
    have "drop (S - len) (Load True # sw @ ev) = drop m sw @ [Load False]"
      using m sw(1) stop [OF True] by simp
    moreover have "loads_in (drop m sw) = 0" "sends_in (drop m sw) \<le> 20" "slept_in (drop m sw) \<le> T"
      using events_drop_le [of m sw] sw by simp_all
    ultimately show ?thesis by simp
  next
    case False
    then obtain m where m: "S - len = Suc m" "41 \<le> m" "S - (len + 42) = m - 41"
      by (cases "S - len") auto
    have "drop (S - len) (Load True # sw @ ev) = drop (m - 41) ev"
      using m sw(1) by simp
    with rest m(3) show ?thesis by simp
  qed
  then show "loads_in (drop (S - len) (Load True # sw @ ev)) = 1"
    and "sends_in (drop (S - len) (Load True # sw @ ev)) \<le> 20"
    and "slept_in (drop (S - len) (Load True # sw @ ev)) \<le> T"
    by simp_all
qed

lemma position_loop_stops:
  assumes flag: "running E = (\<lambda>p. p < S)"
  shows "length (node_ids (fst st)) = 20 \<Longrightarrow>
    \<exists>st' k ev. position_loop E D F server st = Some st' \<and>
      trace (snd st') = trace (snd st) @ ev \<and>
      (S \<le> length (trace (snd st)) \<longrightarrow> ev = [Load False]) \<and>
      loads_in ev = Suc k \<and> sends_in ev = 20 * k \<and> slept_in ev = 300 * k \<and>
      loads_in (drop (S - length (trace (snd st))) ev) = 1 \<and>
      sends_in (drop (S - length (trace (snd st))) ev) \<le> 20 \<and>
      slept_in (drop (S - length (trace (snd st))) ev) \<le> 300"
proof (induction "S - length (trace (snd st))" arbitrary: st rule: less_induct)
  case less
  let ?len = "length (trace (snd st))"
  show ?case
  proof (cases "?len < S")
    case False
    let ?w = "(snd st)\<lparr>trace := trace (snd st) @ [Load False]\<rparr>"
    have "position_loop E D F server st = Some (fst st, ?w)"
      using False by (subst position_loop.simps) (simp add: load_running_def flag)
    then show ?thesis
      using False by (intro exI [of _ "(fst st, ?w)"] exI [of _ 0] exI [of _ "[Load False]"]) simp
  next
    case True
    let ?w = "(snd st)\<lparr>trace := trace (snd st) @ [Load True]\<rparr>"
    let ?st1 = "position_sweep E D F server (fst st, ?w)"
    have unroll: "position_loop E D F server st = position_loop E D F server ?st1"
      using True by (subst position_loop.simps) (simp add: load_running_def flag)
    have ids0: "length (node_ids (fst (fst st, ?w))) = 20" using less.prems by simp
    have ids1: "length (node_ids (fst ?st1)) = 20"
      using less.prems by (simp add: position_sweep_facts)
    from position_sweep_trace [OF ids0, of E D F server] obtain sw where
      tr1: "trace (snd ?st1) = trace (snd st) @ Load True # sw"
      and sw: "length sw = 41" "loads_in sw = 0" "sends_in sw = 20" "slept_in sw = 300"
      by auto
    have len1: "length (trace (snd ?st1)) = ?len + 42" by (simp add: tr1 sw(1))
    have "S - length (trace (snd ?st1)) < S - ?len" using True len1 by simp
    from less.hyps [OF this ids1] obtain st' k ev where
      run: "position_loop E D F server ?st1 = Some st'"
      and tr: "trace (snd st') = trace (snd ?st1) @ ev"
      and stop: "S \<le> ?len + 42 \<longrightarrow> ev = [Load False]"
      and all: "loads_in ev = Suc k" "sends_in ev = 20 * k" "slept_in ev = 300 * k"
      and rest: "loads_in (drop (S - (?len + 42)) ev) = 1"
        "sends_in (drop (S - (?len + 42)) ev) \<le> 20"
        "slept_in (drop (S - (?len + 42)) ev) \<le> 300"
      unfolding len1 by blast
    from stop have stop': "S \<le> ?len + 42 \<Longrightarrow> ev = [Load False]" by simp
    note A = after_sweep [OF sw True stop' rest]
    show ?thesis
      using run tr tr1 all sw A True unroll
      by (intro exI [of _ st'] exI [of _ "Suc k"] exI [of _ "Load True # sw @ ev"]) simp
  qed
qed

lemma node_ids_set_distance: "node_ids (set_distance F i j nm) = node_ids nm"
  by (simp add: set_distance_def getDistance_def Let_def split: prod.splits)

lemma node_ids_new_node: "node_ids (new_node D i nm) = node_ids nm @ [word_of_int i]"
  by (simp add: new_node_def Let_def split: prod.splits)

lemma node_ids_fold_new_node:
  "node_ids (fold (new_node D) is nm) = node_ids nm @ map word_of_int is"
  by (induction "is" arbitrary: nm) (simp_all add: node_ids_new_node)

lemma node_ids_fold_set_distance: "node_ids (fold (set_distance F i) js nm) = node_ids nm"
  by (induction js arbitrary: nm) (simp_all add: node_ids_set_distance)

lemma node_ids_fold_fold:
  "node_ids (fold (\<lambda>i. fold (set_distance F i) (js i)) is nm) = node_ids nm"
  by (induction "is" arbitrary: nm) (simp_all add: node_ids_fold_set_distance)

lemma node_ids_NodeManager_new:
  "node_ids (NodeManager_new D F seed) = map word_of_int [1..NUM_NODES]"
  by (simp add: NodeManager_new_def node_ids_fold_fold node_ids_fold_new_node)

lemma for_edges_total:
  "sampling_ends D \<Longrightarrow> 0 \<le> i \<Longrightarrow> n \<le> 50 \<Longrightarrow> length p = 304 \<Longrightarrow>
   \<exists>p' g'. for_edges D n i p g = Some (Inr (p', g'))"
proof (induction D n i p g rule: for_edges.induct)
  case (1 D num_edges i packet g)
  show ?case
  proof (cases "i < num_edges")
    case False
    then show ?thesis by (simp add: for_edges.simps [of D num_edges i packet g])
  next
    case True
    with "1.prems" have i: "\<not> (i < 0 \<or> 50 \<le> i)" "nat i < 50" by simp_all
    obtain s g1 where s: "node_dist D g = (s, g1)" by (cases "node_dist D g")
    let ?p1 = "store16 (edge_at (nat i) + off_source_id) (word_of_int s) packet"
    have "draw_target D (nat i) ?p1 g1 \<noteq> None"
      using "1.prems"(1,4) i(2) by (simp add: sampling_ends_def sizeof_GraphPacket_def)
    then obtain p2 g2 where dt: "draw_target D (nat i) ?p1 g1 = Some (p2, g2)" by auto
    obtain w g3 where w: "strength_dist D g2 = (w, g3)" by (cases "strength_dist D g2")
    let ?p3 = "store16 (edge_at (nat i) + off_strength) w p2"
    from draw_target_result [OF dt] have "length p2 = 304"
      using "1.prems"(4) by auto
    then have len3: "length ?p3 = 304" by simp
    have "\<exists>p' g'. for_edges D num_edges (i + 1) ?p3 g3 = Some (Inr (p', g'))"
      by (rule "1.IH" [OF True i(1) refl s [symmetric] refl dt refl refl w [symmetric] refl
            "1.prems"(1) _ "1.prems"(3) len3])
        (use "1.prems"(2) in simp)
    then show ?thesis
      using True i(1) s dt w by (simp add: for_edges.simps [of D num_edges i packet g])
  qed
qed

lemma send_graph_total:
  assumes ok: "GraphGenerator_dists_ok D" and ends: "sampling_ends D"
  shows "\<exists>st'. send_graph E D server node_id st = Some (Inr st')"
proof -
  obtain n g1 where n: "edge_count_dist D (fst st) = (n, g1)"
    by (cases "edge_count_dist D (fst st)")
  have r: "n \<le> 50"
    using edge_count_uint(3) [OF ok, of "fst st"] by (simp add: n MAX_EDGES_def)
  let ?p0 = "store16 off_edge_count (word_of_int n)
    (store16 off_sender_id node_id (replicate sizeof_GraphPacket None))"
  have "\<exists>p g'. for_edges D n 0 ?p0 g1 = Some (Inr (p, g'))"
    by (rule for_edges_total [OF ends _ r]) (simp_all add: sizeof_GraphPacket_def)
  then obtain p g' where gen: "generateGraph D node_id (fst st) = Some (Inr (p, g'))"
    by (auto simp: generateGraph_def n)
  note P = generateGraph_packet [OF ok gen]
  have "unat (word_of_int (fst (edge_count_dist D (fst st))) :: 16 word) \<le> 35"
    using edge_count_word [OF ok, of "fst st"] by simp
  then have "\<exists>d. graph_datagram p = Inr d"
    by (simp add: graph_datagram_def P(1,3) graph_send_size_unat)
  then show ?thesis
    using gen by (auto simp: send_graph_def sendPacket_eq)
qed

lemma graph_for_total:
  assumes "GraphGenerator_dists_ok D" and "sampling_ends D"
  shows "\<exists>st'. graph_for E D server ids st = Some (Inr st')"
proof (induction ids arbitrary: st)
  case Nil
  then show ?case by simp
next
  case (Cons a ids)
  from send_graph_total [OF assms, of E server a st]
  obtain st1 where "send_graph E D server a st = Some (Inr st1)" by blast
  with Cons [of st1] show ?case by simp
qed

lemma graph_sweep_total:
  assumes "GraphGenerator_dists_ok D" and "sampling_ends D"
  shows "\<exists>st'. graph_sweep E D server st = Some (Inr st')"
  using graph_for_total [OF assms, of E server "map word_of_int [1..NUM_NODES]" st]
  by (auto simp: graph_sweep_def split: prod.splits)

lemma graph_loop_stops:
  assumes flag: "running E = (\<lambda>p. p < S)"
    and ok: "GraphGenerator_dists_ok D" and ends: "sampling_ends D"
  shows "\<exists>st' k ev. graph_loop E D server st = Some (Inr st') \<and>
      trace (snd st') = trace (snd st) @ ev \<and>
      (S \<le> length (trace (snd st)) \<longrightarrow> ev = [Load False]) \<and>
      loads_in ev = Suc k \<and> sends_in ev = 20 * k \<and> slept_in ev = 6000 * k \<and>
      loads_in (drop (S - length (trace (snd st))) ev) = 1 \<and>
      sends_in (drop (S - length (trace (snd st))) ev) \<le> 20 \<and>
      slept_in (drop (S - length (trace (snd st))) ev) \<le> 6000"
proof (induction "S - length (trace (snd st))" arbitrary: st rule: less_induct)
  case less
  let ?len = "length (trace (snd st))"
  show ?case
  proof (cases "?len < S")
    case False
    let ?w = "(snd st)\<lparr>trace := trace (snd st) @ [Load False]\<rparr>"
    have "graph_loop E D server st = Some (Inr (fst st, ?w))"
      using False by (subst graph_loop.simps) (simp add: load_running_def flag)
    then show ?thesis
      using False by (intro exI [of _ "(fst st, ?w)"] exI [of _ 0] exI [of _ "[Load False]"]) simp
  next
    case True
    let ?w = "(snd st)\<lparr>trace := trace (snd st) @ [Load True]\<rparr>"
    from graph_sweep_total [OF ok ends, of E server "(fst st, ?w)"]
    obtain st1 where sweep: "graph_sweep E D server (fst st, ?w) = Some (Inr st1)" by blast
    have unroll: "graph_loop E D server st = graph_loop E D server st1"
      using True sweep by (subst graph_loop.simps) (simp add: load_running_def flag)
    from graph_sweep_trace [OF sweep] obtain sw where
      tr1: "trace (snd st1) = trace (snd st) @ Load True # sw"
      and sw: "length sw = 41" "loads_in sw = 0" "sends_in sw = 20" "slept_in sw = 6000"
      by auto
    have len1: "length (trace (snd st1)) = ?len + 42" by (simp add: tr1 sw(1))
    have "S - length (trace (snd st1)) < S - ?len" using True len1 by simp
    from less.hyps [OF this] obtain st' k ev where
      run: "graph_loop E D server st1 = Some (Inr st')"
      and tr: "trace (snd st') = trace (snd st1) @ ev"
      and stop: "S \<le> ?len + 42 \<longrightarrow> ev = [Load False]"
      and all: "loads_in ev = Suc k" "sends_in ev = 20 * k" "slept_in ev = 6000 * k"
      and rest: "loads_in (drop (S - (?len + 42)) ev) = 1"
        "sends_in (drop (S - (?len + 42)) ev) \<le> 20"
        "slept_in (drop (S - (?len + 42)) ev) \<le> 6000"
      unfolding len1 by blast
    from stop have stop': "S \<le> ?len + 42 \<Longrightarrow> ev = [Load False]" by simp
    note A = after_sweep [OF sw True stop' rest]
    show ?thesis
      using run tr tr1 all sw A True unroll
      by (intro exI [of _ st'] exI [of _ "Suc k"] exI [of _ "Load True # sw @ ev"]) simp
  qed
qed

lemma D0_node_uint:
  "uint (word_of_int (fst (node_dist D0 g)) :: 16 word) = 1 + int (g div 2 mod 20)"
proof -
  have k: "fst (node_dist D0 g) = 1 + int (g div 2 mod 20)"
    by (simp add: D0_def)
  have "int (g div 2 mod 20) < 20" by simp
  then have "(1 + int (g div 2 mod 20)) mod 2 ^ LENGTH(16) = 1 + int (g div 2 mod 20)"
    by (intro mod_pos_pos_trivial) simp_all
  then show ?thesis
    by (simp only: k uint_word_of_int)
qed

lemma D0_node_differs:
  "(word_of_int (fst (node_dist D0 (Suc (Suc g)))) :: 16 word) \<noteq> word_of_int (fst (node_dist D0 g))"
proof
  assume "(word_of_int (fst (node_dist D0 (Suc (Suc g)))) :: 16 word) =
    word_of_int (fst (node_dist D0 g))"
  then have "uint (word_of_int (fst (node_dist D0 (Suc (Suc g)))) :: 16 word) =
      uint (word_of_int (fst (node_dist D0 g)) :: 16 word)"
    by (rule arg_cong)
  then have "Suc (g div 2) mod 20 = g div 2 mod 20"
    by (simp only: D0_node_uint) simp
  then show False
    by (simp add: mod_Suc split: if_splits)
qed

lemma draw_target_D0_step:
  assumes "i < 50" and "length q = 304"
  shows "draw_target D0 i q g =
    (if Some (word_of_int (fst (node_dist D0 g))) = load16 (edge_at i + off_source_id) q
     then draw_target D0 i (store16 (edge_at i + off_target_id) (word_of_int (fst (node_dist D0 g))) q) (Suc g)
     else Some (store16 (edge_at i + off_target_id) (word_of_int (fst (node_dist D0 g))) q, Suc g))"
proof -
  have e: "edge_at i + 6 \<le> 304" using assms(1) by (simp add: offs)
  have g': "snd (node_dist D0 g) = Suc g" by (simp add: D0_def)
  show ?thesis
    using e
    by (subst draw_target.simps)
      (simp add: Let_def split_beta g' assms(2) offs load16_store16_same load16_store16_other)
qed

lemma D0_sampling_ends: "sampling_ends D0"
  unfolding sampling_ends_def
proof (intro allI impI)
  fix i :: nat and p :: mem and g :: nat
  assume i: "i < 50" and "length p = sizeof_GraphPacket"
  then have len: "length p = 304" by (simp add: sizeof_GraphPacket_def)
  let ?a = "edge_at i + off_target_id" and ?b = "edge_at i + off_source_id"
  let ?v = "\<lambda>g. word_of_int (fst (node_dist D0 g)) :: 16 word"
  have e: "edge_at i + 6 \<le> 304" using i by (simp add: offs)
  have src: "load16 ?b (store16 ?a x q) = load16 ?b q" if "length q = 304" for x q
    using e that by (simp add: offs load16_store16_other)
  let ?p1 = "store16 ?a (?v g) p"
  let ?p2 = "store16 ?a (?v (Suc g)) ?p1"
  show "draw_target D0 i p g \<noteq> None"
  proof (cases "Some (?v g) = load16 ?b p")
    case False
    then show ?thesis by (simp add: draw_target_D0_step [OF i len])
  next
    case one: True
    show ?thesis
    proof (cases "Some (?v (Suc g)) = load16 ?b p")
      case False
      then show ?thesis
        using one by (simp add: draw_target_D0_step [OF i] len src)
    next
      case True
      with one D0_node_differs [of g] have "Some (?v (Suc (Suc g))) \<noteq> load16 ?b p"
        by (metis option.inject)
      then show ?thesis
        using one True by (simp add: draw_target_D0_step [OF i] len src)
    qed
  qed
qed

lemma length_node_ids_new: "length (node_ids (NodeManager_new D F seed)) = 20"
  by (simp add: node_ids_NodeManager_new NUM_NODES_def)

text \<open>
  Claim C8, as the code has it. Each producer loads \<open>running\<close> once per turn of its
  \<open>while\<close> loop, that is once per sweep of 20 emissions, and not between the emissions of
  a sweep: a run that ends has made \<open>k + 1\<close> loads, \<open>20 * k\<close> calls of \<open>sendto\<close> and slept
  \<open>k\<close> sweeps. When the flag is cleared at the instant \<open>S\<close> of a producer that has begun
  its loop by then, the producer leaves the loop at its first load from \<open>S\<close> on. The flag
  may be cleared right after a load that saw it set, so up to 20 calls of \<open>sendto\<close> and a
  whole sweep of sleeping follow the instant \<open>S\<close>: 300 ms for the position producer, 6000
  ms for the graph producer (which ends if the rejection sampling of every edge ends).
\<close>

theorem producers_stop_at_loop_head:
  assumes "running E = (\<lambda>p. p < S)" and "length (trace w) \<le> S"
    and "running E2 = (\<lambda>p. p < S2)" and "length (trace w2) \<le> S2"
    and "GraphGenerator_dists_ok D2" and "sampling_ends D2"
  shows "(\<exists>nm' w' k. position_loop E D F server (NodeManager_new D F seed, w) = Some (nm', w') \<and>
      take (length (trace w)) (trace w') = trace w \<and>
      loads_in (drop (length (trace w)) (trace w')) = Suc k \<and>
      sends_in (drop (length (trace w)) (trace w')) = 20 * k \<and>
      slept_in (drop (length (trace w)) (trace w')) = 300 * k \<and>
      loads_in (drop S (trace w')) = 1 \<and>
      sends_in (drop S (trace w')) \<le> 20 \<and>
      slept_in (drop S (trace w')) \<le> 300) \<and>
    (\<exists>g' w' k. graph_loop E2 D2 server2 (g, w2) = Some (Inr (g', w')) \<and>
      take (length (trace w2)) (trace w') = trace w2 \<and>
      loads_in (drop (length (trace w2)) (trace w')) = Suc k \<and>
      sends_in (drop (length (trace w2)) (trace w')) = 20 * k \<and>
      slept_in (drop (length (trace w2)) (trace w')) = 6000 * k \<and>
      loads_in (drop S2 (trace w')) = 1 \<and>
      sends_in (drop S2 (trace w')) \<le> 20 \<and>
      slept_in (drop S2 (trace w')) \<le> 6000)"
proof
  from position_loop_stops [OF assms(1), of "(NodeManager_new D F seed, w)" D F server]
  obtain st' k ev where
    run: "position_loop E D F server (NodeManager_new D F seed, w) = Some st'"
    and tr: "trace (snd st') = trace w @ ev"
    and all: "loads_in ev = Suc k" "sends_in ev = 20 * k" "slept_in ev = 300 * k"
    and rest: "loads_in (drop (S - length (trace w)) ev) = 1"
      "sends_in (drop (S - length (trace w)) ev) \<le> 20"
      "slept_in (drop (S - length (trace w)) ev) \<le> 300"
    by (auto simp: length_node_ids_new)
  have "drop S (trace (snd st')) = drop (S - length (trace w)) ev"
    using assms(2) by (simp add: tr)
  with run tr all rest
  show "\<exists>nm' w' k. position_loop E D F server (NodeManager_new D F seed, w) = Some (nm', w') \<and>
      take (length (trace w)) (trace w') = trace w \<and>
      loads_in (drop (length (trace w)) (trace w')) = Suc k \<and>
      sends_in (drop (length (trace w)) (trace w')) = 20 * k \<and>
      slept_in (drop (length (trace w)) (trace w')) = 300 * k \<and>
      loads_in (drop S (trace w')) = 1 \<and>
      sends_in (drop S (trace w')) \<le> 20 \<and>
      slept_in (drop S (trace w')) \<le> 300"
    by (intro exI [of _ "fst st'"] exI [of _ "snd st'"] exI [of _ k]) simp
next
  from graph_loop_stops [OF assms(3,5,6), of server2 "(g, w2)"]
  obtain st' k ev where
    run: "graph_loop E2 D2 server2 (g, w2) = Some (Inr st')"
    and tr: "trace (snd st') = trace w2 @ ev"
    and all: "loads_in ev = Suc k" "sends_in ev = 20 * k" "slept_in ev = 6000 * k"
    and rest: "loads_in (drop (S2 - length (trace w2)) ev) = 1"
      "sends_in (drop (S2 - length (trace w2)) ev) \<le> 20"
      "slept_in (drop (S2 - length (trace w2)) ev) \<le> 6000"
    by auto
  have "drop S2 (trace (snd st')) = drop (S2 - length (trace w2)) ev"
    using assms(4) by (simp add: tr)
  with run tr all rest
  show "\<exists>g' w' k. graph_loop E2 D2 server2 (g, w2) = Some (Inr (g', w')) \<and>
      take (length (trace w2)) (trace w') = trace w2 \<and>
      loads_in (drop (length (trace w2)) (trace w')) = Suc k \<and>
      sends_in (drop (length (trace w2)) (trace w')) = 20 * k \<and>
      slept_in (drop (length (trace w2)) (trace w')) = 6000 * k \<and>
      loads_in (drop S2 (trace w')) = 1 \<and>
      sends_in (drop S2 (trace w')) \<le> 20 \<and>
      slept_in (drop S2 (trace w')) \<le> 6000"
    by (intro exI [of _ "fst st'"] exI [of _ "snd st'"] exI [of _ k]) simp
qed

theorem producers_stop_at_loop_head_witness:
  "running E0 = (\<lambda>p. p < 1) \<and> length (trace w0) \<le> 1 \<and>
   GraphGenerator_dists_ok D0 \<and> sampling_ends D0 \<and>
   (\<exists>nm' w' k. position_loop E0 Dt F0 position_server0 (NodeManager_new Dt F0 [], w0) = Some (nm', w') \<and>
      take (length (trace w0)) (trace w') = trace w0 \<and>
      loads_in (drop (length (trace w0)) (trace w')) = Suc k \<and>
      sends_in (drop (length (trace w0)) (trace w')) = 20 * k \<and>
      slept_in (drop (length (trace w0)) (trace w')) = 300 * k \<and>
      loads_in (drop 1 (trace w')) = 1 \<and>
      sends_in (drop 1 (trace w')) \<le> 20 \<and>
      slept_in (drop 1 (trace w')) \<le> 300) \<and>
   (\<exists>g' w' k. graph_loop E0 D0 graph_server0 (0, w0) = Some (Inr (g', w')) \<and>
      take (length (trace w0)) (trace w') = trace w0 \<and>
      loads_in (drop (length (trace w0)) (trace w')) = Suc k \<and>
      sends_in (drop (length (trace w0)) (trace w')) = 20 * k \<and>
      slept_in (drop (length (trace w0)) (trace w')) = 6000 * k \<and>
      loads_in (drop 1 (trace w')) = 1 \<and>
      sends_in (drop 1 (trace w')) \<le> 20 \<and>
      slept_in (drop 1 (trace w')) \<le> 6000)"
proof -
  have f: "running E0 = (\<lambda>p. p < 1)" by (simp add: E0_def)
  have n: "length (trace w0) \<le> 1" by (simp add: w0_def)
  note stop = producers_stop_at_loop_head [OF f n f n D0_ok D0_sampling_ends,
      where D = Dt and F = F0 and server = position_server0 and seed = "[]"
        and ?server2.0 = graph_server0 and g = 0]
  show ?thesis
    using conjI [OF f conjI [OF n conjI [OF D0_ok conjI [OF D0_sampling_ends stop]]]] .
qed

text \<open>
  Claim C8 as it is stated has a producer make at most one more emission and leave
  within 200 ms. With the flag cleared at the instant 1, after the first load of the
  position producer and before its first \<open>sendto\<close>, the producer calls \<open>sendto\<close> 20 more
  times and sleeps 300 ms more before it leaves its loop.
\<close>

theorem producers_stop_counterexample:
  "map_option (hd \<circ> trace \<circ> snd)
     (position_loop E0 Dt F0 position_server0 (NodeManager_new Dt F0 [], w0)) = Some (Load True) \<and>
   map_option (sends_in \<circ> drop 1 \<circ> trace \<circ> snd)
     (position_loop E0 Dt F0 position_server0 (NodeManager_new Dt F0 [], w0)) = Some 20 \<and>
   map_option (slept_in \<circ> drop 1 \<circ> trace \<circ> snd)
     (position_loop E0 Dt F0 position_server0 (NodeManager_new Dt F0 [], w0)) = Some 300"
proof -
  let ?nm = "NodeManager_new Dt F0 []"
  let ?w = "w0\<lparr>trace := [Load True]\<rparr>"
  let ?st1 = "position_sweep E0 Dt F0 position_server0 (?nm, ?w)"
  have r: "running E0 p = (p < 1)" for p by (simp add: E0_def)
  have ids: "length (node_ids (fst (?nm, ?w))) = 20" by (simp add: length_node_ids_new)
  from position_sweep_trace [OF ids, of E0 Dt F0 position_server0] obtain sw where
    tr1: "trace (snd ?st1) = Load True # sw"
    and sw: "length sw = 41" "sends_in sw = 20" "slept_in sw = 300"
    by auto
  let ?w2 = "(snd ?st1)\<lparr>trace := Load True # sw @ [Load False]\<rparr>"
  have "position_loop E0 Dt F0 position_server0 ?st1 = Some (fst ?st1, ?w2)"
    by (subst position_loop.simps) (simp add: load_running_def r tr1 sw(1))
  then have "position_loop E0 Dt F0 position_server0 (?nm, w0) = Some (fst ?st1, ?w2)"
    by (subst position_loop.simps) (simp add: load_running_def r w0_def)
  then show ?thesis
    by (simp add: sw)
qed

end
